theory Spec2Isabelle
  imports Main "HOL-Library.Word"
begin

section \<open>Memory model\<close>

text \<open>
  The container of \<^verbatim>\<open>single-linked-list.h\<close> is a chain of heap nodes that starts at a
  sentinel node embedded in the list object. A \<^verbatim>\<open>Node*\<close> is therefore either
  \<^verbatim>\<open>nullptr\<close> (\<open>None\<close>), the address of the member \<^verbatim>\<open>head_\<close> of a list object, or
  the address of a node obtained from \<^verbatim>\<open>new\<close>. List objects and heap nodes live in two
  stores indexed by address; a destroyed object or a deleted node leaves \<open>None\<close> in
  its slot, and an address is never handed out twice. \<^verbatim>\<open>size_t\<close> is a 64-bit word.
  The members \<^verbatim>\<open>head_\<close>, \<^verbatim>\<open>size_\<close>, \<^verbatim>\<open>node_\<close> and \<^verbatim>\<open>value\<close> are called \<open>head_node\<close>,
  \<open>size_count\<close>, \<open>node\<close> and \<open>node_value\<close> here.
\<close>

type_synonym addr = nat

datatype node_ptr = Sentinel addr | Heap addr

record 'a Node =
  node_value :: 'a
  next_node :: "node_ptr option"

record 'a SingleLinkedList =
  head_node :: "'a Node"
  size_count :: "64 word"

record 'a world =
  objects :: "'a SingleLinkedList option list"
  heap :: "'a Node option list"

text \<open>\<^verbatim>\<open>assert\<close> is active in a debug build and compiled away under \<^verbatim>\<open>NDEBUG\<close>.\<close>

datatype build = Debug | Release

text \<open>
  How a call can end without returning: a failed assertion aborts the program, a
  dereference of a null or dangling pointer (or a \<^verbatim>\<open>delete\<close> of something that is not
  a live heap node) is undefined behaviour, and an exception leaves the function with
  the memory as it is at that moment.
\<close>

datatype 'w error = AssertionFailed | UndefinedBehaviour | Thrown 'w

definition and_then :: "'e + 'x \<Rightarrow> ('x \<Rightarrow> 'e + 'y) \<Rightarrow> 'e + 'y" where
  "and_then m f = (case m of Inl e \<Rightarrow> Inl e | Inr x \<Rightarrow> f x)"

definition defined :: "'x option \<Rightarrow> 'w error + 'x" where
  "defined m = (case m of None \<Rightarrow> Inl UndefinedBehaviour | Some x \<Rightarrow> Inr x)"

definition assert :: "build \<Rightarrow> 'w error + bool \<Rightarrow> 'w error + unit" where
  "assert b c =
     (if b = Release then Inr ()
      else and_then c (\<lambda>ok. if ok then Inr () else Inl AssertionFailed))"

definition lookup :: "'x option list \<Rightarrow> nat \<Rightarrow> 'x option" where
  "lookup xs i = (if i < length xs then xs ! i else None)"

definition get_list :: "'a world \<Rightarrow> addr \<Rightarrow> 'a SingleLinkedList option" where
  "get_list w this = lookup (objects w) this"

definition put_list :: "'a world \<Rightarrow> addr \<Rightarrow> 'a SingleLinkedList \<Rightarrow> 'a world" where
  "put_list w this l = w\<lparr>objects := (objects w)[this := Some l]\<rparr>"

text \<open>Reading \<^verbatim>\<open>*p\<close> for a non-null \<^verbatim>\<open>Node* p\<close>; \<open>None\<close> when \<open>p\<close> dangles.\<close>

definition load :: "'a world \<Rightarrow> node_ptr \<Rightarrow> 'a Node option" where
  "load w p =
     (case p of
        Sentinel l \<Rightarrow> map_option head_node (get_list w l)
      | Heap a \<Rightarrow> lookup (heap w) a)"

text \<open>The assignment \<^verbatim>\<open>p->next_node = q\<close>.\<close>

definition set_next_node :: "'a world \<Rightarrow> node_ptr \<Rightarrow> node_ptr option \<Rightarrow> 'a world error + 'a world" where
  "set_next_node w p q =
     (case p of
        Sentinel l \<Rightarrow>
          (case get_list w l of
             None \<Rightarrow> Inl UndefinedBehaviour
           | Some x \<Rightarrow> Inr (put_list w l (x\<lparr>head_node := (head_node x)\<lparr>next_node := q\<rparr>\<rparr>)))
      | Heap a \<Rightarrow>
          (case lookup (heap w) a of
             None \<Rightarrow> Inl UndefinedBehaviour
           | Some n \<Rightarrow> Inr (w\<lparr>heap := (heap w)[a := Some (n\<lparr>next_node := q\<rparr>)]\<rparr>)))"

text \<open>
  \<^verbatim>\<open>new Node(val, next)\<close>. Whether the allocation or the copy of the value throws is
  decided by the environment: \<open>E a v\<close> holds when building a node for \<open>v\<close> at the next
  free address \<open>a\<close> throws. Nothing is changed in that case.
\<close>

type_synonym 'a throws = "addr \<Rightarrow> 'a \<Rightarrow> bool"

definition new_Node ::
  "'a throws \<Rightarrow> 'a world \<Rightarrow> 'a \<Rightarrow> node_ptr option \<Rightarrow> 'a world error + node_ptr \<times> 'a world" where
  "new_Node E w val nxt =
     (if E (length (heap w)) val then Inl (Thrown w)
      else Inr (Heap (length (heap w)),
                w\<lparr>heap := heap w @ [Some \<lparr>node_value = val, next_node = nxt\<rparr>]\<rparr>))"

text \<open>\<^verbatim>\<open>delete p\<close>: a no-op on \<^verbatim>\<open>nullptr\<close>, defined only on a live heap node otherwise.\<close>

definition delete_Node :: "'a world \<Rightarrow> node_ptr option \<Rightarrow> 'a world error + 'a world" where
  "delete_Node w p =
     (case p of
        None \<Rightarrow> Inr w
      | Some (Sentinel l) \<Rightarrow> Inl UndefinedBehaviour
      | Some (Heap a) \<Rightarrow>
          (case lookup (heap w) a of
             None \<Rightarrow> Inl UndefinedBehaviour
           | Some n \<Rightarrow> Inr (w\<lparr>heap := (heap w)[a := None]\<rparr>)))"

section \<open>Iterators\<close>

text \<open>
  \<^verbatim>\<open>BasicIterator<ValueType>\<close> holds one \<^verbatim>\<open>Node*\<close>; \<^verbatim>\<open>Iterator\<close> and \<^verbatim>\<open>ConstIterator\<close>
  differ only in the constness of what they hand out, so both are this type.
\<close>

datatype BasicIterator = BasicIterator (node: "node_ptr option")

definition BasicIterator_default :: BasicIterator where
  "BasicIterator_default = BasicIterator None"

definition iter_eq :: "BasicIterator \<Rightarrow> BasicIterator \<Rightarrow> bool" where
  "iter_eq lhs rhs = (node lhs = node rhs)"

definition iter_ne :: "BasicIterator \<Rightarrow> BasicIterator \<Rightarrow> bool" where
  "iter_ne lhs rhs = (\<not> (node lhs = node rhs))"

text \<open>\<^verbatim>\<open>operator++\<close> (prefix): the iterator after the step.\<close>

definition iter_inc :: "build \<Rightarrow> 'a world \<Rightarrow> BasicIterator \<Rightarrow> 'a world error + BasicIterator" where
  "iter_inc b w it =
     and_then (assert b (Inr (node it \<noteq> None))) (\<lambda>_.
     and_then (defined (node it)) (\<lambda>p.
     and_then (defined (load w p)) (\<lambda>n.
     Inr (BasicIterator (next_node n)))))"

text \<open>\<^verbatim>\<open>operator*\<close>.\<close>

definition iter_deref :: "build \<Rightarrow> 'a world \<Rightarrow> BasicIterator \<Rightarrow> 'a world error + 'a" where
  "iter_deref b w it =
     and_then (assert b (Inr (node it \<noteq> None))) (\<lambda>_.
     and_then (defined (node it)) (\<lambda>p.
     and_then (defined (load w p)) (\<lambda>n.
     Inr (node_value n))))"

section \<open>The list container\<close>

text \<open>
  \<^verbatim>\<open>SingleLinkedList() = default\<close>: a new list object with \<^verbatim>\<open>head_ = {}\<close> and
  \<^verbatim>\<open>size_ = 0\<close>. \<open>d\<close> is the value-initialised \<^verbatim>\<open>Type\<close> held by the sentinel.
\<close>

definition SingleLinkedList_default :: "'a \<Rightarrow> 'a world \<Rightarrow> addr \<times> 'a world" where
  "SingleLinkedList_default d w =
     (length (objects w),
      w\<lparr>objects := objects w @
         [Some \<lparr>head_node = \<lparr>node_value = d, next_node = None\<rparr>, size_count = 0\<rparr>]\<rparr>)"

text \<open>The storage of a list object goes away (end of scope, or a constructor that threw).\<close>

definition release_object :: "'a world \<Rightarrow> addr \<Rightarrow> 'a world" where
  "release_object w this = w\<lparr>objects := (objects w)[this := None]\<rparr>"

definition GetSize :: "'a world \<Rightarrow> addr \<Rightarrow> 'a world error + 64 word" where
  "GetSize w this = and_then (defined (get_list w this)) (\<lambda>l. Inr (size_count l))"

definition IsEmpty :: "'a world \<Rightarrow> addr \<Rightarrow> 'a world error + bool" where
  "IsEmpty w this = and_then (defined (get_list w this)) (\<lambda>l. Inr (size_count l = 0))"

definition begin_it :: "'a world \<Rightarrow> addr \<Rightarrow> 'a world error + BasicIterator" where
  "begin_it w this =
     and_then (defined (get_list w this)) (\<lambda>l. Inr (BasicIterator (next_node (head_node l))))"

definition end_it :: "addr \<Rightarrow> BasicIterator" where
  "end_it this = BasicIterator None"

definition cbegin_it :: "'a world \<Rightarrow> addr \<Rightarrow> 'a world error + BasicIterator" where
  "cbegin_it w this =
     and_then (defined (get_list w this)) (\<lambda>l. Inr (BasicIterator (next_node (head_node l))))"

definition cend_it :: "addr \<Rightarrow> BasicIterator" where
  "cend_it this = BasicIterator None"

definition before_begin :: "addr \<Rightarrow> BasicIterator" where
  "before_begin this = BasicIterator (Some (Sentinel this))"

definition cbefore_begin :: "addr \<Rightarrow> BasicIterator" where
  "cbefore_begin this = BasicIterator (Some (Sentinel this))"

definition PushFront :: "'a throws \<Rightarrow> 'a world \<Rightarrow> addr \<Rightarrow> 'a \<Rightarrow> 'a world error + unit \<times> 'a world" where
  "PushFront E w this val =
     and_then (defined (get_list w this)) (\<lambda>l.
     and_then (new_Node E w val (next_node (head_node l))) (\<lambda>(p, w1).
     and_then (set_next_node w1 (Sentinel this) (Some p)) (\<lambda>w2.
     and_then (defined (get_list w2 this)) (\<lambda>l2.
     Inr ((), put_list w2 this (l2\<lparr>size_count := size_count l2 + 1\<rparr>))))))"

definition InsertAfter ::
  "build \<Rightarrow> 'a throws \<Rightarrow> 'a world \<Rightarrow> addr \<Rightarrow> BasicIterator \<Rightarrow> 'a \<Rightarrow>
     'a world error + BasicIterator \<times> 'a world" where
  "InsertAfter b E w this pos val =
     and_then (assert b (Inr (node pos \<noteq> None))) (\<lambda>_.
     and_then (defined (node pos)) (\<lambda>p.
     and_then (defined (load w p)) (\<lambda>n.
     and_then (new_Node E w val (next_node n)) (\<lambda>(new_node, w1).
     and_then (set_next_node w1 p (Some new_node)) (\<lambda>w2.
     and_then (defined (get_list w2 this)) (\<lambda>l.
     and_then (Inr (put_list w2 this (l\<lparr>size_count := size_count l + 1\<rparr>))) (\<lambda>w3.
     and_then (defined (load w3 p)) (\<lambda>n3.
     Inr (BasicIterator (next_node n3), w3)))))))))"

definition EraseAfter ::
  "build \<Rightarrow> 'a world \<Rightarrow> addr \<Rightarrow> BasicIterator \<Rightarrow> 'a world error + BasicIterator \<times> 'a world" where
  "EraseAfter b w this pos =
     and_then (assert b (and_then (IsEmpty w this) (\<lambda>e. Inr (\<not> e)))) (\<lambda>_.
     and_then (defined (node pos)) (\<lambda>p.
     and_then (defined (load w p)) (\<lambda>n.
     and_then (defined (next_node n)) (\<lambda>q.
     and_then (defined (load w q)) (\<lambda>m.
     and_then (delete_Node w (next_node n)) (\<lambda>w1.
     and_then (set_next_node w1 p (next_node m)) (\<lambda>w2.
     and_then (defined (get_list w2 this)) (\<lambda>l.
     Inr (BasicIterator (next_node m),
          put_list w2 this (l\<lparr>size_count := size_count l - 1\<rparr>))))))))))"

definition PopFront :: "build \<Rightarrow> 'a world \<Rightarrow> addr \<Rightarrow> 'a world error + unit \<times> 'a world" where
  "PopFront b w this =
     and_then (assert b (and_then (IsEmpty w this) (\<lambda>e. Inr (\<not> e)))) (\<lambda>_.
     and_then (defined (get_list w this)) (\<lambda>l.
     and_then (defined (next_node (head_node l))) (\<lambda>q.
     and_then (defined (load w q)) (\<lambda>m.
     and_then (set_next_node w (Sentinel this) (next_node m)) (\<lambda>w1.
     and_then (defined (get_list w1 this)) (\<lambda>l1.
     and_then (Inr (put_list w1 this (l1\<lparr>size_count := size_count l1 - 1\<rparr>))) (\<lambda>w2.
     and_then (delete_Node w2 (next_node (head_node l))) (\<lambda>w3.
     Inr ((), w3)))))))))"

text \<open>
  The loop of \<^verbatim>\<open>Clear\<close>. Every round deletes a live heap node, so the number of live
  nodes is a measure and the loop ends on every memory, well-formed or not.
\<close>

definition live :: "'x option list \<Rightarrow> nat" where
  "live xs = length (filter (\<lambda>x. x \<noteq> None) xs)"

function Clear_loop :: "'a world \<Rightarrow> addr \<Rightarrow> 'a world error + 'a world" where
  "Clear_loop w this =
     (case get_list w this of
        None \<Rightarrow> Inl UndefinedBehaviour
      | Some l \<Rightarrow>
          (case next_node (head_node l) of
             None \<Rightarrow> Inr w
           | Some node_to_del \<Rightarrow>
               (case load w node_to_del of
                  None \<Rightarrow> Inl UndefinedBehaviour
                | Some m \<Rightarrow>
                    (case set_next_node w (Sentinel this) (next_node m) of
                       Inl e \<Rightarrow> Inl e
                     | Inr w1 \<Rightarrow>
                         (case delete_Node w1 (Some node_to_del) of
                            Inl e \<Rightarrow> Inl e
                          | Inr w2 \<Rightarrow> Clear_loop w2 this)))))"
  by pat_completeness auto

termination Clear_loop
proof (relation "measure (\<lambda>(w, this). live (heap w))")
  show "wf (measure (\<lambda>(w, this). live (heap w)))" by simp
next
  fix w :: "'a world" and this node_to_del and m :: "'a Node" and w1 w2
  assume s: "set_next_node w (Sentinel this) (next_node m) = Inr w1"
    and d: "delete_Node w1 (Some node_to_del) = Inr w2"
  have drop: "live (xs[i := None]) < live xs" if "i < length xs" "xs ! i \<noteq> None"
    for xs :: "'a Node option list" and i
    using that
  proof (induction xs arbitrary: i)
    case Nil
    then show ?case by simp
  next
    case (Cons x xs)
    show ?case
    proof (cases i)
      case 0
      with Cons.prems show ?thesis by (simp add: live_def le_imp_less_Suc)
    next
      case (Suc j)
      with Cons.prems have "live (xs[j := None]) < live xs"
        by (intro Cons.IH) simp_all
      with Suc show ?thesis by (simp add: live_def)
    qed
  qed
  from s have "heap w1 = heap w"
    by (auto simp: set_next_node_def put_list_def split: option.splits)
  moreover from d have "live (heap w2) < live (heap w1)"
    by (cases node_to_del)
       (auto simp: delete_Node_def lookup_def drop split: option.splits if_splits)
  ultimately show "((w2, this), (w, this)) \<in> measure (\<lambda>(w, this). live (heap w))"
    by simp
qed

declare Clear_loop.simps [simp del]

definition Clear :: "'a world \<Rightarrow> addr \<Rightarrow> 'a world error + 'a world" where
  "Clear w this =
     and_then (Clear_loop w this) (\<lambda>w1.
     and_then (defined (get_list w1 this)) (\<lambda>l.
     Inr (put_list w1 this (l\<lparr>size_count := 0\<rparr>))))"

text \<open>\<^verbatim>\<open>~SingleLinkedList()\<close> calls \<^verbatim>\<open>Clear\<close>; then the object is gone.\<close>

definition destroy :: "'a world \<Rightarrow> addr \<Rightarrow> 'a world error + 'a world" where
  "destroy w this = and_then (Clear w this) (\<lambda>w1. Inr (release_object w1 this))"

text \<open>
  \<^verbatim>\<open>swap\<close>: two \<^verbatim>\<open>std::swap\<close> calls, each reading both operands and then writing
  the first and the second.
\<close>

definition swap_lists :: "'a world \<Rightarrow> addr \<Rightarrow> addr \<Rightarrow> 'a world error + 'a world" where
  "swap_lists w this other =
     and_then (defined (get_list w this)) (\<lambda>x.
     and_then (defined (get_list w other)) (\<lambda>y.
     and_then (set_next_node w (Sentinel this) (next_node (head_node y))) (\<lambda>w1.
     and_then (set_next_node w1 (Sentinel other) (next_node (head_node x))) (\<lambda>w2.
     and_then (defined (get_list w2 this)) (\<lambda>x2.
     and_then (Inr (put_list w2 this (x2\<lparr>size_count := size_count y\<rparr>))) (\<lambda>w3.
     and_then (defined (get_list w3 other)) (\<lambda>y3.
     Inr (put_list w3 other (y3\<lparr>size_count := size_count x\<rparr>)))))))))"

text \<open>
  The loop of \<^verbatim>\<open>FillingListInSeries\<close> over a \<^verbatim>\<open>std::initializer_list\<close>, whose
  elements are a finite sequence.
\<close>

fun fill_values ::
  "build \<Rightarrow> 'a throws \<Rightarrow> 'a world \<Rightarrow> addr \<Rightarrow> BasicIterator \<Rightarrow> 'a list \<Rightarrow> 'a world error + 'a world" where
  "fill_values b E w temp_list temp_it [] = Inr w"
| "fill_values b E w temp_list temp_it (val # rest) =
     (case InsertAfter b E w temp_list temp_it val of
        Inl e \<Rightarrow> Inl e
      | Inr (inserted, w1) \<Rightarrow>
          (case iter_inc b w1 temp_it of
             Inl e \<Rightarrow> Inl e
           | Inr temp_it1 \<Rightarrow> fill_values b E w1 temp_list temp_it1 rest))"

text \<open>
  The same loop over another list, \<^verbatim>\<open>for (auto value : from)\<close> with \<^verbatim>\<open>from.begin()\<close> and
  \<^verbatim>\<open>from.end()\<close>. On a cyclic chain it does not end: \<open>None\<close>.
\<close>

partial_function (option) fill_nodes ::
  "build \<Rightarrow> 'a throws \<Rightarrow> 'a world \<Rightarrow> addr \<Rightarrow> BasicIterator \<Rightarrow> BasicIterator \<Rightarrow> BasicIterator \<Rightarrow>
     ('a world error + 'a world) option" where
  "fill_nodes b E w temp_list temp_it it last_it =
     (if iter_ne it last_it then
        (case iter_deref b w it of
           Inl e \<Rightarrow> Some (Inl e)
         | Inr val \<Rightarrow>
             (case InsertAfter b E w temp_list temp_it val of
                Inl e \<Rightarrow> Some (Inl e)
              | Inr (inserted, w1) \<Rightarrow>
                  (case iter_inc b w1 temp_it of
                     Inl e \<Rightarrow> Some (Inl e)
                   | Inr temp_it1 \<Rightarrow>
                       (case iter_inc b w1 it of
                          Inl e \<Rightarrow> Some (Inl e)
                        | Inr it1 \<Rightarrow> fill_nodes b E w1 temp_list temp_it1 it1 last_it))))
      else Some (Inr w))"

declare fill_nodes.simps [code]

text \<open>
  What follows the loop in \<^verbatim>\<open>FillingListInSeries\<close>: on success the swap and the
  destructor of \<^verbatim>\<open>temp_list\<close> at the end of the scope; on an exception the destructor
  of \<^verbatim>\<open>temp_list\<close> during unwinding.
\<close>

definition after_fill :: "'a world error + 'a world \<Rightarrow> addr \<Rightarrow> addr \<Rightarrow> 'a world error + 'a world" where
  "after_fill r this temp_list =
     (case r of
        Inl (Thrown wx) \<Rightarrow> and_then (destroy wx temp_list) (\<lambda>wy. Inl (Thrown wy))
      | Inl e \<Rightarrow> Inl e
      | Inr w1 \<Rightarrow> and_then (swap_lists w1 this temp_list) (\<lambda>w2. destroy w2 temp_list))"

definition FillingListInSeries_values ::
  "build \<Rightarrow> 'a throws \<Rightarrow> 'a \<Rightarrow> 'a world \<Rightarrow> addr \<Rightarrow> 'a list \<Rightarrow> 'a world error + 'a world" where
  "FillingListInSeries_values b E d w this from =
     and_then (assert b (IsEmpty w this)) (\<lambda>_.
     (case SingleLinkedList_default d w of
        (temp_list, w0) \<Rightarrow>
          after_fill (fill_values b E w0 temp_list (before_begin temp_list) from) this temp_list))"

definition FillingListInSeries_list ::
  "build \<Rightarrow> 'a throws \<Rightarrow> 'a \<Rightarrow> 'a world \<Rightarrow> addr \<Rightarrow> addr \<Rightarrow> ('a world error + 'a world) option" where
  "FillingListInSeries_list b E d w this from =
     (case assert b (IsEmpty w this) of
        Inl e \<Rightarrow> Some (Inl e)
      | Inr u \<Rightarrow>
          (case SingleLinkedList_default d w of
             (temp_list, w0) \<Rightarrow>
               (case begin_it w0 from of
                  Inl e \<Rightarrow> Some (Inl e)
                | Inr first \<Rightarrow>
                    map_option (\<lambda>r. after_fill r this temp_list)
                      (fill_nodes b E w0 temp_list (before_begin temp_list) first (end_it from)))))"

text \<open>
  The constructors run on a new object with its members default-initialised; when the
  body throws, the storage of the half-built object is released.
\<close>

definition constructed :: "addr \<Rightarrow> 'a world error + 'a world \<Rightarrow> 'a world error + addr \<times> 'a world" where
  "constructed this r =
     (case r of
        Inl (Thrown wx) \<Rightarrow> Inl (Thrown (release_object wx this))
      | Inl e \<Rightarrow> Inl e
      | Inr w1 \<Rightarrow> Inr (this, w1))"

definition SingleLinkedList_values ::
  "build \<Rightarrow> 'a throws \<Rightarrow> 'a \<Rightarrow> 'a world \<Rightarrow> 'a list \<Rightarrow> 'a world error + addr \<times> 'a world" where
  "SingleLinkedList_values b E d w vals =
     (case SingleLinkedList_default d w of
        (this, w0) \<Rightarrow> constructed this (FillingListInSeries_values b E d w0 this vals))"

definition SingleLinkedList_copy ::
  "build \<Rightarrow> 'a throws \<Rightarrow> 'a \<Rightarrow> 'a world \<Rightarrow> addr \<Rightarrow> ('a world error + addr \<times> 'a world) option" where
  "SingleLinkedList_copy b E d w other =
     (case SingleLinkedList_default d w of
        (this, w0) \<Rightarrow> map_option (constructed this) (FillingListInSeries_list b E d w0 this other))"

text \<open>\<^verbatim>\<open>operator=\<close>; the result is the address of \<^verbatim>\<open>*this\<close>.\<close>

definition assign ::
  "build \<Rightarrow> 'a throws \<Rightarrow> 'a \<Rightarrow> 'a world \<Rightarrow> addr \<Rightarrow> addr \<Rightarrow> ('a world error + addr \<times> 'a world) option" where
  "assign b E d w this rhs =
     (if this = rhs then Some (Inr (this, w))
      else
        map_option
          (\<lambda>r. and_then r (\<lambda>(tmp, w1).
                and_then (swap_lists w1 this tmp) (\<lambda>w2.
                and_then (destroy w2 tmp) (\<lambda>w3.
                Inr (this, w3)))))
          (SingleLinkedList_copy b E d w rhs))"

section \<open>Comparison of lists\<close>

text \<open>
  \<^verbatim>\<open>std::equal\<close> and \<^verbatim>\<open>std::lexicographical_compare\<close> on two ranges of forward
  iterators, as the C++ standard library defines them: both walk the two ranges in
  step. On a cyclic chain they do not end. The elements are compared with the
  \<^verbatim>\<open>operator==\<close> of \<^verbatim>\<open>Type\<close>, which the caller supplies and which need not be the
  identity of values (it is not reflexive on a floating-point NaN): it is the
  parameter \<open>eq\<close>. \<^verbatim>\<open>operator<\<close> of \<^verbatim>\<open>Type\<close> is the \<open><\<close> of the class \<open>ord\<close>, which
  assumes nothing about it.
\<close>

partial_function (option) std_equal ::
  "('a \<Rightarrow> 'a \<Rightarrow> bool) \<Rightarrow> build \<Rightarrow> 'a world \<Rightarrow> BasicIterator \<Rightarrow> BasicIterator \<Rightarrow>
     BasicIterator \<Rightarrow> BasicIterator \<Rightarrow> ('a world error + bool) option" where
  "std_equal eq b w first1 last1 first2 last2 =
     (if iter_ne first1 last1 \<and> iter_ne first2 last2 then
        (case iter_deref b w first1 of
           Inl e \<Rightarrow> Some (Inl e)
         | Inr x \<Rightarrow>
             (case iter_deref b w first2 of
                Inl e \<Rightarrow> Some (Inl e)
              | Inr y \<Rightarrow>
                  if \<not> eq x y then Some (Inr False)
                  else
                    (case iter_inc b w first1 of
                       Inl e \<Rightarrow> Some (Inl e)
                     | Inr next1 \<Rightarrow>
                         (case iter_inc b w first2 of
                            Inl e \<Rightarrow> Some (Inl e)
                          | Inr next2 \<Rightarrow> std_equal eq b w next1 last1 next2 last2))))
      else Some (Inr (iter_eq first1 last1 \<and> iter_eq first2 last2)))"

declare std_equal.simps [code]

partial_function (option) std_lexicographical_compare ::
  "build \<Rightarrow> ('a::ord) world \<Rightarrow> BasicIterator \<Rightarrow> BasicIterator \<Rightarrow> BasicIterator \<Rightarrow> BasicIterator \<Rightarrow>
     ('a world error + bool) option" where
  "std_lexicographical_compare b w first1 last1 first2 last2 =
     (if iter_ne first1 last1 \<and> iter_ne first2 last2 then
        (case iter_deref b w first1 of
           Inl e \<Rightarrow> Some (Inl e)
         | Inr x \<Rightarrow>
             (case iter_deref b w first2 of
                Inl e \<Rightarrow> Some (Inl e)
              | Inr y \<Rightarrow>
                  if x < y then Some (Inr True)
                  else if y < x then Some (Inr False)
                  else
                    (case iter_inc b w first1 of
                       Inl e \<Rightarrow> Some (Inl e)
                     | Inr next1 \<Rightarrow>
                         (case iter_inc b w first2 of
                            Inl e \<Rightarrow> Some (Inl e)
                          | Inr next2 \<Rightarrow> std_lexicographical_compare b w next1 last1 next2 last2))))
      else Some (Inr (iter_eq first1 last1 \<and> iter_ne first2 last2)))"

declare std_lexicographical_compare.simps [code]

definition negated :: "('e + bool) option \<Rightarrow> ('e + bool) option" where
  "negated r = map_option (\<lambda>x. and_then x (\<lambda>y. Inr (\<not> y))) r"

definition list_eq ::
  "('a \<Rightarrow> 'a \<Rightarrow> bool) \<Rightarrow> build \<Rightarrow> 'a world \<Rightarrow> addr \<Rightarrow> addr \<Rightarrow> ('a world error + bool) option" where
  "list_eq eq b w lhs rhs =
     (case begin_it w lhs of
        Inl e \<Rightarrow> Some (Inl e)
      | Inr first1 \<Rightarrow>
          (case begin_it w rhs of
             Inl e \<Rightarrow> Some (Inl e)
           | Inr first2 \<Rightarrow> std_equal eq b w first1 (end_it lhs) first2 (end_it rhs)))"

definition list_ne ::
  "('a \<Rightarrow> 'a \<Rightarrow> bool) \<Rightarrow> build \<Rightarrow> 'a world \<Rightarrow> addr \<Rightarrow> addr \<Rightarrow> ('a world error + bool) option" where
  "list_ne eq b w lhs rhs = negated (list_eq eq b w lhs rhs)"

definition list_lt :: "build \<Rightarrow> ('a::ord) world \<Rightarrow> addr \<Rightarrow> addr \<Rightarrow> ('a world error + bool) option" where
  "list_lt b w lhs rhs =
     (case begin_it w lhs of
        Inl e \<Rightarrow> Some (Inl e)
      | Inr first1 \<Rightarrow>
          (case begin_it w rhs of
             Inl e \<Rightarrow> Some (Inl e)
           | Inr first2 \<Rightarrow>
               std_lexicographical_compare b w first1 (end_it lhs) first2 (end_it rhs)))"

definition list_le :: "build \<Rightarrow> ('a::ord) world \<Rightarrow> addr \<Rightarrow> addr \<Rightarrow> ('a world error + bool) option" where
  "list_le b w lhs rhs = negated (list_lt b w rhs lhs)"

definition list_gt :: "build \<Rightarrow> ('a::ord) world \<Rightarrow> addr \<Rightarrow> addr \<Rightarrow> ('a world error + bool) option" where
  "list_gt b w lhs rhs = list_lt b w rhs lhs"

definition list_ge :: "build \<Rightarrow> ('a::ord) world \<Rightarrow> addr \<Rightarrow> addr \<Rightarrow> ('a world error + bool) option" where
  "list_ge b w lhs rhs = negated (list_lt b w rhs lhs)"

section \<open>Traversal\<close>

text \<open>
  Reading a list from \<^verbatim>\<open>begin()\<close> to \<^verbatim>\<open>end()\<close>, the way a caller does:
  \<^verbatim>\<open>for (auto it = l.begin(); it != l.end(); ++it) out.push_back(*it);\<close>
\<close>

partial_function (option) traverse_loop ::
  "build \<Rightarrow> 'a world \<Rightarrow> BasicIterator \<Rightarrow> BasicIterator \<Rightarrow> 'a list \<Rightarrow> ('a world error + 'a list) option" where
  "traverse_loop b w it last_it out =
     (if iter_ne it last_it then
        (case iter_deref b w it of
           Inl e \<Rightarrow> Some (Inl e)
         | Inr x \<Rightarrow>
             (case iter_inc b w it of
                Inl e \<Rightarrow> Some (Inl e)
              | Inr it1 \<Rightarrow> traverse_loop b w it1 last_it (out @ [x])))
      else Some (Inr out))"

declare traverse_loop.simps [code]

definition traverse :: "build \<Rightarrow> 'a world \<Rightarrow> addr \<Rightarrow> ('a world error + 'a list) option" where
  "traverse b w this =
     (case begin_it w this of
        Inl e \<Rightarrow> Some (Inl e)
      | Inr first \<Rightarrow> traverse_loop b w first (end_it this) [])"

section \<open>Lists in the memory\<close>

text \<open>
  \<open>chain h p cs\<close>: the pointer \<open>p\<close> starts a chain of live heap nodes that ends at
  \<^verbatim>\<open>nullptr\<close>; \<open>cs\<close> lists the address and the value of each node in order.
  \<open>holds w this xs\<close>: the list object \<open>this\<close> is alive, the chain after its sentinel
  carries the values \<open>xs\<close>, and its stored count is their number.
\<close>

primrec chain :: "'a Node option list \<Rightarrow> node_ptr option \<Rightarrow> (addr \<times> 'a) list \<Rightarrow> bool" where
  "chain h p [] = (p = None)"
| "chain h p (c # cs) =
     (case lookup h (fst c) of
        None \<Rightarrow> False
      | Some n \<Rightarrow> p = Some (Heap (fst c)) \<and> node_value n = snd c \<and> chain h (next_node n) cs)"

definition holds :: "'a world \<Rightarrow> addr \<Rightarrow> 'a list \<Rightarrow> bool" where
  "holds w this xs =
     (case get_list w this of
        None \<Rightarrow> False
      | Some l \<Rightarrow>
          (\<exists>cs. chain (heap w) (next_node (head_node l)) cs \<and> map snd cs = xs)
          \<and> unat (size_count l) = length xs)"

section \<open>Environments and example memories\<close>

text \<open>
  The memory before anything is allocated, the environment in which no construction
  throws and the one in which every construction throws.
\<close>

definition empty_world :: "'a world" where
  "empty_world = \<lparr>objects = [], heap = []\<rparr>"

definition never :: "'a throws" where
  "never a v = False"

definition always :: "'a throws" where
  "always a v = True"

text \<open>
  The memories left by the initializer-list constructor for \<^verbatim>\<open>{1}\<close>, for \<^verbatim>\<open>{1}\<close> and then
  \<^verbatim>\<open>{2}\<close>, and for \<^verbatim>\<open>{1, 2, 3}\<close> (slot 1 and slot 3 of \<open>objects\<close> are the destroyed
  temporaries of \<^verbatim>\<open>FillingListInSeries\<close>), and the last one after \<^verbatim>\<open>EraseAfter(begin())\<close> and
  after \<^verbatim>\<open>PushFront(9)\<close>.
\<close>

definition list_1 :: "int world" where
  "list_1 =
     \<lparr>objects = [Some \<lparr>head_node = \<lparr>node_value = 0, next_node = Some (Heap 0)\<rparr>, size_count = 1\<rparr>, None],
      heap = [Some \<lparr>node_value = 1, next_node = None\<rparr>]\<rparr>"

definition list_1_and_2 :: "int world" where
  "list_1_and_2 =
     \<lparr>objects = [Some \<lparr>head_node = \<lparr>node_value = 0, next_node = Some (Heap 0)\<rparr>, size_count = 1\<rparr>, None,
                 Some \<lparr>head_node = \<lparr>node_value = 0, next_node = Some (Heap 1)\<rparr>, size_count = 1\<rparr>, None],
      heap = [Some \<lparr>node_value = 1, next_node = None\<rparr>, Some \<lparr>node_value = 2, next_node = None\<rparr>]\<rparr>"

definition list_123 :: "int world" where
  "list_123 =
     \<lparr>objects = [Some \<lparr>head_node = \<lparr>node_value = 0, next_node = Some (Heap 0)\<rparr>, size_count = 3\<rparr>, None],
      heap = [Some \<lparr>node_value = 1, next_node = Some (Heap 1)\<rparr>,
              Some \<lparr>node_value = 2, next_node = Some (Heap 2)\<rparr>,
              Some \<lparr>node_value = 3, next_node = None\<rparr>]\<rparr>"

definition list_13 :: "int world" where
  "list_13 =
     \<lparr>objects = [Some \<lparr>head_node = \<lparr>node_value = 0, next_node = Some (Heap 0)\<rparr>, size_count = 2\<rparr>, None],
      heap = [Some \<lparr>node_value = 1, next_node = Some (Heap 2)\<rparr>,
              None,
              Some \<lparr>node_value = 3, next_node = None\<rparr>]\<rparr>"

definition list_9123 :: "int world" where
  "list_9123 =
     \<lparr>objects = [Some \<lparr>head_node = \<lparr>node_value = 0, next_node = Some (Heap 3)\<rparr>, size_count = 4\<rparr>, None],
      heap = [Some \<lparr>node_value = 1, next_node = Some (Heap 1)\<rparr>,
              Some \<lparr>node_value = 2, next_node = Some (Heap 2)\<rparr>,
              Some \<lparr>node_value = 3, next_node = None\<rparr>,
              Some \<lparr>node_value = 9, next_node = Some (Heap 0)\<rparr>]\<rparr>"

section \<open>Frames and positions\<close>

text \<open>
  \<open>heap_frame A h h'\<close>: the heap \<open>h'\<close> keeps every cell of \<open>h\<close> outside \<open>A\<close>; it may be longer.
  \<open>others_same t w w'\<close>: no list object but \<open>t\<close> differs between \<open>w\<close> and \<open>w'\<close>.
\<close>

definition heap_frame :: "addr set \<Rightarrow> 'a Node option list \<Rightarrow> 'a Node option list \<Rightarrow> bool" where
  "heap_frame A h h' =
     (length h \<le> length h' \<and> (\<forall>a<length h. a \<notin> A \<longrightarrow> lookup h' a = lookup h a))"

text \<open>The position after the prefix \<open>pre\<close> of the list \<open>t\<close>: its sentinel or the last cell of \<open>pre\<close>.\<close>

definition pos_after :: "addr \<Rightarrow> (addr \<times> 'a) list \<Rightarrow> node_ptr" where
  "pos_after t pre = (if pre = [] then Sentinel t else Heap (fst (last pre)))"

definition others_same :: "addr \<Rightarrow> 'a world \<Rightarrow> 'a world \<Rightarrow> bool" where
  "others_same t w w' =
     (length (objects w') = length (objects w) \<and> (\<forall>j. j \<noteq> t \<longrightarrow> get_list w' j = get_list w j))"

section \<open>The invariant of the memory\<close>

text \<open>
  \<open>count_inv\<close> is the invariant of the container: for every list object the chain that
  starts at the sentinel ends at \<^verbatim>\<open>nullptr\<close>, and the stored count is the number of its
  nodes. \<open>separate\<close> says that two list objects share no node (each node has one
  owner). Together they are the well-formedness of the memory.
\<close>

definition count_inv :: "'a world \<Rightarrow> bool" where
  "count_inv w =
     (\<forall>t l. get_list w t = Some l \<longrightarrow>
        (\<exists>cs. chain (heap w) (next_node (head_node l)) cs \<and> unat (size_count l) = length cs))"

definition separate :: "'a world \<Rightarrow> bool" where
  "separate w =
     (\<forall>i j li lj cs ds. i \<noteq> j \<and> get_list w i = Some li \<and> get_list w j = Some lj
        \<and> chain (heap w) (next_node (head_node li)) cs
        \<and> chain (heap w) (next_node (head_node lj)) ds \<longrightarrow>
        fst ` set cs \<inter> fst ` set ds = {})"

definition wf_world :: "'a world \<Rightarrow> bool" where
  "wf_world w = (count_inv w \<and> separate w)"

text \<open>
  An operation ends well when it returns or throws, and the memory it leaves is
  well-formed; an aborted or undefined run does not end well.
\<close>

definition well_ended :: "('x \<Rightarrow> 'a world) \<Rightarrow> 'a world error + 'x \<Rightarrow> bool" where
  "well_ended final r =
     (case r of
        Inr x \<Rightarrow> wf_world (final x)
      | Inl (Thrown w') \<Rightarrow> wf_world w'
      | Inl AssertionFailed \<Rightarrow> False
      | Inl UndefinedBehaviour \<Rightarrow> False)"

text \<open>
  The preconditions on positions: \<open>pos\<close> is \<^verbatim>\<open>before_begin()\<close> of the list \<open>t\<close> or refers to
  one of its nodes; \<open>pos\<close> has a successor.
\<close>

definition valid_pos :: "'a world \<Rightarrow> addr \<Rightarrow> BasicIterator \<Rightarrow> bool" where
  "valid_pos w t pos =
     (node pos = Some (Sentinel t)
      \<or> (\<exists>l cs a. get_list w t = Some l \<and> chain (heap w) (next_node (head_node l)) cs
            \<and> a \<in> fst ` set cs \<and> node pos = Some (Heap a)))"

definition has_next :: "'a world \<Rightarrow> BasicIterator \<Rightarrow> bool" where
  "has_next w pos = (\<exists>p n. node pos = Some p \<and> load w p = Some n \<and> next_node n \<noteq> None)"

section \<open>Outcomes of the filling loops\<close>

text \<open>
  \<open>grown n0 t w ts vals full w'\<close>: from \<open>w\<close> to \<open>w'\<close> the list \<open>t\<close> has got new cells after
  \<open>ts\<close>, for all of \<open>vals\<close> when \<open>full\<close>; nothing below \<open>n0\<close> and no other object has
  changed.
\<close>

definition grown ::
  "nat \<Rightarrow> addr \<Rightarrow> 'a world \<Rightarrow> (addr \<times> 'a) list \<Rightarrow> 'a list \<Rightarrow> bool \<Rightarrow> 'a world \<Rightarrow> bool" where
  "grown n0 t w ts vals full w' =
     (\<exists>lt' ts'. get_list w' t = Some lt'
        \<and> chain (heap w') (next_node (head_node lt')) (ts @ ts')
        \<and> unat (size_count lt') = length (ts @ ts')
        \<and> (\<forall>c\<in>set ts'. length (heap w) \<le> fst c)
        \<and> (if full then map snd ts' = vals else True)
        \<and> others_same t w w' \<and> heap_frame {n0..} (heap w) (heap w'))"

text \<open>
  What a filling loop ends in: all values appended, or an exception (only when the
  environment \<open>E\<close> can throw) with some of them appended.
\<close>

definition filled ::
  "'a throws \<Rightarrow> nat \<Rightarrow> addr \<Rightarrow> 'a world \<Rightarrow> (addr \<times> 'a) list \<Rightarrow> 'a list \<Rightarrow>
     'a world error + 'a world \<Rightarrow> bool" where
  "filled E n0 t w ts vals r =
     (case r of
        Inr w' \<Rightarrow> grown n0 t w ts vals True w'
      | Inl (Thrown w') \<Rightarrow> (\<exists>a v. E a v) \<and> grown n0 t w ts vals False w'
      | Inl AssertionFailed \<Rightarrow> False
      | Inl UndefinedBehaviour \<Rightarrow> False)"

section \<open>Outcomes of the constructors\<close>

text \<open>
  \<open>built E this w vals r\<close>: the outcome \<open>r\<close> of filling the empty list \<open>this\<close> of the
  memory \<open>w\<close>. On return the list holds \<open>vals\<close>, and the other objects and every heap
  cell of \<open>w\<close> are untouched; an exception needs an environment that throws. Either
  way a well-formed memory stays well-formed.
\<close>

definition built :: "'a throws \<Rightarrow> addr \<Rightarrow> 'a world \<Rightarrow> 'a list \<Rightarrow> 'a world error + 'a world \<Rightarrow> bool" where
  "built E this w vals r =
     (case r of
        Inr w' \<Rightarrow>
          holds w' this vals
          \<and> (\<forall>j. j \<noteq> this \<and> j < length (objects w) \<longrightarrow> get_list w' j = get_list w j)
          \<and> heap_frame {} (heap w) (heap w')
          \<and> (wf_world w \<longrightarrow> wf_world w')
      | Inl (Thrown w') \<Rightarrow> (\<exists>a v. E a v) \<and> (wf_world w \<longrightarrow> wf_world w')
      | Inl AssertionFailed \<Rightarrow> False
      | Inl UndefinedBehaviour \<Rightarrow> False)"

text \<open>
  \<open>created E w vals r\<close>: the outcome \<open>r\<close> of a constructor run in the memory \<open>w\<close>: a new
  object that holds \<open>vals\<close>, the objects and the heap cells of \<open>w\<close> untouched; or an
  exception, from an environment that throws.
\<close>

definition created ::
  "'a throws \<Rightarrow> 'a world \<Rightarrow> 'a list \<Rightarrow> 'a world error + addr \<times> 'a world \<Rightarrow> bool" where
  "created E w vals r =
     (case r of
        Inr (this, w') \<Rightarrow>
          this = length (objects w) \<and> holds w' this vals
          \<and> (\<forall>j. j < length (objects w) \<longrightarrow> get_list w' j = get_list w j)
          \<and> heap_frame {} (heap w) (heap w')
          \<and> (wf_world w \<longrightarrow> wf_world w')
      | Inl (Thrown w') \<Rightarrow> (\<exists>a v. E a v) \<and> (wf_world w \<longrightarrow> wf_world w')
      | Inl AssertionFailed \<Rightarrow> False
      | Inl UndefinedBehaviour \<Rightarrow> False)"

section \<open>Single operations\<close>

lemma list_1_built: "SingleLinkedList_values Debug never 0 empty_world [1] = Inr (0, list_1)"
  by code_simp

lemma list_1_and_2_built: "SingleLinkedList_values Debug never 0 list_1 [2] = Inr (2, list_1_and_2)"
  by code_simp

text \<open>
  Claim C1 says that \<^verbatim>\<open>A >= B\<close> is true exactly when \<^verbatim>\<open>A < B\<close> is false. The source's
  \<^verbatim>\<open>operator>=\<close> has the body of \<^verbatim>\<open>operator<=\<close>, \<^verbatim>\<open>!(rhs < lhs)\<close>: the two operators
  agree on every pair of lists, and for \<^verbatim>\<open>A = {1}\<close>, \<^verbatim>\<open>B = {2}\<close> both \<^verbatim>\<open>A < B\<close> and
  \<^verbatim>\<open>A >= B\<close> return true.
\<close>

theorem list_ge_is_le:
  "list_ge b w lhs rhs = list_le b w lhs rhs
   \<and> list_lt Debug list_1_and_2 0 2 = Some (Inr True)
   \<and> list_ge Debug list_1_and_2 0 2 = Some (Inr True)"
proof -
  have "list_ge b w lhs rhs = list_le b w lhs rhs"
    by (simp add: list_ge_def list_le_def)
  moreover have "list_lt Debug list_1_and_2 0 2 = Some (Inr True)"
    by code_simp
  moreover have "list_ge Debug list_1_and_2 0 2 = Some (Inr True)"
    by code_simp
  ultimately show ?thesis by simp
qed

text \<open>
  Claim C9: the self-assignment \<^verbatim>\<open>A = A\<close> returns \<^verbatim>\<open>*this\<close> at once and leaves the whole
  memory as it was, hence the element sequence and the size of \<open>A\<close> too.
\<close>

theorem assign_self: "assign b E d w A A = Some (Inr (A, w))"
  by (simp add: assign_def)

text \<open>
  Claim C2, as stated, fails: in the list \<^verbatim>\<open>{1}\<close> the position \<^verbatim>\<open>begin()\<close> has no
  successor (one step from it is \<^verbatim>\<open>end()\<close>), the list is not empty, so the assertion of
  \<^verbatim>\<open>EraseAfter\<close> in a debug build passes and the null successor is dereferenced.
\<close>

theorem EraseAfter_last_counterexample:
  "IsEmpty list_1 0 = Inr False
   \<and> begin_it list_1 0 = Inr (BasicIterator (Some (Heap 0)))
   \<and> iter_inc Debug list_1 (BasicIterator (Some (Heap 0))) = Inr (end_it 0)
   \<and> EraseAfter Debug list_1 0 (BasicIterator (Some (Heap 0))) = Inl UndefinedBehaviour"
  by code_simp

text \<open>
  Claim C2, amended: in a debug build \<^verbatim>\<open>EraseAfter\<close> stops at its assertion exactly when
  the stored size of the list is zero, whatever the position is; no node has been read
  or freed at that point, the assertion being the first statement.
\<close>

theorem EraseAfter_assertion:
  "get_list w this = Some l \<Longrightarrow>
     (EraseAfter Debug w this pos = Inl AssertionFailed) = (size_count l = 0)"
  by (auto simp: EraseAfter_def assert_def IsEmpty_def and_then_def defined_def
        delete_Node_def set_next_node_def
      split: option.splits sum.splits node_ptr.splits)

text \<open>
  Claim C7: on the list built from \<^verbatim>\<open>{1, 2, 3}\<close>, \<^verbatim>\<open>EraseAfter(begin())\<close> removes \<open>2\<close>: the
  traversal then yields \<open>1, 3\<close>, the size is \<open>2\<close> and the returned iterator dereferences
  to \<open>3\<close>.
\<close>

theorem EraseAfter_scenario:
  "SingleLinkedList_values Debug never 0 empty_world [1, 2, 3] = Inr (0, list_123)
   \<and> begin_it list_123 0 = Inr (BasicIterator (Some (Heap 0)))
   \<and> EraseAfter Debug list_123 0 (BasicIterator (Some (Heap 0))) =
       Inr (BasicIterator (Some (Heap 2)), list_13)
   \<and> traverse Debug list_13 0 = Some (Inr [1, 3])
   \<and> GetSize list_13 0 = Inr 2
   \<and> iter_deref Debug list_13 (BasicIterator (Some (Heap 2))) = Inr 3"
  by code_simp

text \<open>
  Claim C3: when \<^verbatim>\<open>InsertAfter\<close> leaves by an exception, the memory is the one before the
  call, so the size and the element sequence of the list are what they were; and at a
  valid position a throwing construction of the node does end the call this way.
\<close>

theorem InsertAfter_throw_unchanged:
  "(InsertAfter b E w this pos v = Inl (Thrown w') \<longrightarrow>
      w' = w \<and> GetSize w' this = GetSize w this \<and> traverse b w' this = traverse b w this)
   \<and> (node pos = Some p \<and> load w p = Some n \<and> E (length (heap w)) v \<longrightarrow>
      InsertAfter b E w this pos v = Inl (Thrown w))"
  by (auto simp: InsertAfter_def assert_def and_then_def defined_def new_Node_def
        set_next_node_def
      split: option.splits sum.splits node_ptr.splits if_splits)

theorem InsertAfter_throw_unchanged_witness:
  "InsertAfter Debug always list_123 0 (BasicIterator (Some (Heap 0))) 9 = Inl (Thrown list_123)
   \<and> GetSize list_123 0 = Inr 3 \<and> traverse Debug list_123 0 = Some (Inr [1, 2, 3])"
proof -
  have a: "node (BasicIterator (Some (Heap 0))) = Some (Heap 0)
      \<and> load list_123 (Heap 0) = Some \<lparr>node_value = 1, next_node = Some (Heap 1)\<rparr>
      \<and> always (length (heap list_123)) (9::int)"
    by code_simp
  have b: "GetSize list_123 0 = Inr 3" "traverse Debug list_123 0 = Some (Inr [1, 2, 3])"
    by code_simp+
  from InsertAfter_throw_unchanged [of Debug always list_123 0 "BasicIterator (Some (Heap 0))" 9
      list_123 "Heap 0" "\<lparr>node_value = 1, next_node = Some (Heap 1)\<rparr>"] a b
  show ?thesis by simp
qed

theorem EraseAfter_assertion_witness:
  "get_list (snd (SingleLinkedList_default (0::int) empty_world)) 0 =
     Some \<lparr>head_node = \<lparr>node_value = 0, next_node = None\<rparr>, size_count = 0\<rparr>
   \<and> EraseAfter Debug (snd (SingleLinkedList_default (0::int) empty_world)) 0 (before_begin 0) =
     Inl AssertionFailed"
proof -
  have a: "get_list (snd (SingleLinkedList_default (0::int) empty_world)) 0 =
     Some \<lparr>head_node = \<lparr>node_value = 0, next_node = None\<rparr>, size_count = 0\<rparr>"
    by code_simp
  from EraseAfter_assertion [OF a, of "before_begin 0"] a show ?thesis by simp
qed

text \<open>
  Claim C8: \<^verbatim>\<open>InsertAfter(before_begin(), v)\<close> and \<^verbatim>\<open>PushFront(v)\<close> end in the same way
  and leave the same memory (hence the same element sequence and size), and the
  iterator returned by \<^verbatim>\<open>InsertAfter\<close> is \<^verbatim>\<open>begin()\<close> of the result and dereferences to \<open>v\<close>.
\<close>

theorem InsertAfter_before_begin_is_PushFront:
  "PushFront E w this v =
     and_then (InsertAfter b E w this (before_begin this) v) (\<lambda>(it, w'). Inr ((), w'))
   \<and> (case InsertAfter b E w this (before_begin this) v of
        Inl e \<Rightarrow> True
      | Inr (it, w') \<Rightarrow> begin_it w' this = Inr it \<and> iter_deref b w' it = Inr v)"
  by (auto simp: PushFront_def InsertAfter_def before_begin_def assert_def and_then_def
        defined_def new_Node_def set_next_node_def load_def get_list_def put_list_def lookup_def
        begin_it_def iter_deref_def nth_append
      split: option.splits sum.splits if_splits)

text \<open>
  Claim C10: a default-constructed iterator holds no node; it is equal to \<^verbatim>\<open>end()\<close> and
  \<^verbatim>\<open>cend()\<close> of every list and different from \<^verbatim>\<open>begin()\<close> of every list that holds a
  non-empty sequence.
\<close>

theorem default_iterator_is_end:
  "iter_eq BasicIterator_default (end_it l) \<and> iter_eq BasicIterator_default (cend_it l)
   \<and> iter_eq (end_it l) BasicIterator_default \<and> iter_eq (cend_it l) BasicIterator_default
   \<and> \<not> iter_ne BasicIterator_default (end_it l) \<and> \<not> iter_ne BasicIterator_default (cend_it l)
   \<and> (holds w l xs \<and> xs \<noteq> [] \<longrightarrow>
        (\<exists>it. begin_it w l = Inr it \<and> cbegin_it w l = Inr it
              \<and> iter_ne BasicIterator_default it \<and> \<not> iter_eq BasicIterator_default it
              \<and> iter_ne it BasicIterator_default \<and> \<not> iter_eq it BasicIterator_default))"
  by (cases xs)
     (auto simp: iter_eq_def iter_ne_def BasicIterator_default_def end_it_def cend_it_def holds_def
        begin_it_def cbegin_it_def and_then_def defined_def
      split: option.splits)

lemma holds_list_1: "holds list_1 0 [1]"
proof -
  have "chain (heap list_1) (Some (Heap 0)) [(0, 1)]"
    by (simp add: list_1_def lookup_def)
  then have "\<exists>cs. chain (heap list_1) (Some (Heap 0)) cs \<and> map snd cs = [1]"
    by (intro exI [of _ "[(0, 1)]"]) simp
  then show ?thesis
    by (simp add: holds_def get_list_def lookup_def list_1_def)
qed

theorem default_iterator_is_end_witness:
  "holds list_1 0 [1] \<and> begin_it list_1 0 = Inr (BasicIterator (Some (Heap 0)))
   \<and> iter_ne BasicIterator_default (BasicIterator (Some (Heap 0)))
   \<and> iter_eq BasicIterator_default (end_it 0)"
proof -
  have b: "begin_it list_1 0 = Inr (BasicIterator (Some (Heap 0)))"
    by code_simp
  from default_iterator_is_end [of 0 list_1 "[1]"] holds_list_1 b
  show ?thesis by auto
qed

theorem InsertAfter_before_begin_is_PushFront_witness:
  "InsertAfter Debug never list_123 0 (before_begin 0) 9 = Inr (BasicIterator (Some (Heap 3)), list_9123)
   \<and> PushFront never list_123 0 9 = Inr ((), list_9123)
   \<and> begin_it list_9123 0 = Inr (BasicIterator (Some (Heap 3)))
   \<and> traverse Debug list_9123 0 = Some (Inr [9, 1, 2, 3]) \<and> GetSize list_9123 0 = Inr 4"
proof -
  have a: "InsertAfter Debug never list_123 0 (before_begin 0) 9 =
      Inr (BasicIterator (Some (Heap 3)), list_9123)"
    by code_simp
  have b: "traverse Debug list_9123 0 = Some (Inr [9, 1, 2, 3])" "GetSize list_9123 0 = Inr 4"
    by code_simp+
  from InsertAfter_before_begin_is_PushFront [of never list_123 0 9 Debug] a b
  show ?thesis by (simp add: and_then_def)
qed

section \<open>Facts about chains\<close>

lemma lookup_append:
  "lookup (xs @ ys) i = (if i < length xs then lookup xs i else lookup ys (i - length xs))"
  by (auto simp: lookup_def nth_append)

lemma lookup_update:
  "lookup (xs[i := x]) j = (if i = j \<and> j < length xs then x else lookup xs j)"
  by (auto simp: lookup_def)

lemma lookup_Some_less: "lookup xs i = Some x \<Longrightarrow> i < length xs"
  by (auto simp: lookup_def split: if_splits)

lemma chain_Cons:
  "chain h p (c # cs) =
     (\<exists>n. lookup h (fst c) = Some n \<and> p = Some (Heap (fst c)) \<and> node_value n = snd c
          \<and> chain h (next_node n) cs)"
  by (auto split: option.splits)

declare chain.simps(2) [simp del]

lemma chain_None [simp]: "chain h None cs = (cs = [])"
  by (cases cs) (auto simp: chain_Cons)

lemma chain_unique: "chain h p cs \<Longrightarrow> chain h p ds \<Longrightarrow> cs = ds"
proof (induction cs arbitrary: p ds)
  case Nil
  then show ?case by simp
next
  case (Cons c cs)
  from Cons.prems(1) obtain n where n: "lookup h (fst c) = Some n" "p = Some (Heap (fst c))"
      "node_value n = snd c" "chain h (next_node n) cs"
    by (auto simp: chain_Cons)
  from Cons.prems(2) n(2) obtain d ds' where ds: "ds = d # ds'"
    by (cases ds) auto
  with Cons.prems(2) n have "fst d = fst c" "snd d = snd c" "chain h (next_node n) ds'"
    by (auto simp: chain_Cons)
  with Cons.IH [OF n(4)] ds show ?case
    by (simp add: prod_eq_iff)
qed

lemma chain_bound: "chain h p cs \<Longrightarrow> c \<in> set cs \<Longrightarrow> fst c < length h"
  by (induction cs arbitrary: p) (auto simp: chain_Cons dest: lookup_Some_less)

lemma chain_suffix: "chain h p (cs @ ds) \<Longrightarrow> \<exists>q. chain h q ds"
  by (induction cs arbitrary: p) (auto simp: chain_Cons)

lemma chain_head_notin:
  assumes "chain h p (c # cs)"
  shows "fst c \<notin> fst ` set cs"
proof
  assume "fst c \<in> fst ` set cs"
  then obtain d where d: "d \<in> set cs" "fst d = fst c" by auto
  then obtain us vs where split: "cs = us @ d # vs"
    by (auto simp: in_set_conv_decomp)
  from assms obtain n where n: "lookup h (fst c) = Some n" "chain h (next_node n) cs"
    by (auto simp: chain_Cons)
  from n(2) split obtain q where "chain h q (d # vs)"
    using chain_suffix [of h "next_node n" us "d # vs"] by auto
  with d(2) n(1) have "chain h (next_node n) vs"
    by (auto simp: chain_Cons)
  with n(2) have "cs = vs" by (rule chain_unique)
  with split show False by simp
qed

lemma chain_distinct: "chain h p cs \<Longrightarrow> distinct (map fst cs)"
proof (induction cs arbitrary: p)
  case Nil
  then show ?case by simp
next
  case (Cons c cs)
  from Cons.prems have "fst c \<notin> fst ` set cs" by (rule chain_head_notin)
  moreover from Cons.prems obtain q where "chain h q cs"
    by (auto simp: chain_Cons)
  then have "distinct (map fst cs)" by (rule Cons.IH)
  ultimately show ?case by simp
qed

lemma heap_frame_refl: "heap_frame A h h"
  by (simp add: heap_frame_def)

lemma heap_frame_mono: "heap_frame A h h' \<Longrightarrow> A \<subseteq> B \<Longrightarrow> heap_frame B h h'"
  by (auto simp: heap_frame_def)

lemma heap_frame_trans:
  assumes "heap_frame A h h'" and "heap_frame B h' h''" and "B \<inter> {..<length h} \<subseteq> A"
  shows "heap_frame A h h''"
proof -
  have "lookup h'' a = lookup h a" if "a < length h" "a \<notin> A" for a
  proof -
    from that assms(3) have "a \<notin> B" by auto
    moreover from that assms(1) have "a < length h'" by (simp add: heap_frame_def)
    ultimately have "lookup h'' a = lookup h' a"
      using assms(2) by (simp add: heap_frame_def)
    with that assms(1) show ?thesis by (simp add: heap_frame_def)
  qed
  moreover from assms(1,2) have "length h \<le> length h''" by (simp add: heap_frame_def)
  ultimately show ?thesis by (simp add: heap_frame_def)
qed

lemma chain_frame:
  "chain h p cs \<Longrightarrow> heap_frame A h h' \<Longrightarrow> fst ` set cs \<inter> A = {} \<Longrightarrow> chain h' p cs"
proof (induction cs arbitrary: p)
  case Nil
  then show ?case by simp
next
  case (Cons c cs)
  from Cons.prems(1) obtain n where n: "lookup h (fst c) = Some n" "p = Some (Heap (fst c))"
      "node_value n = snd c" "chain h (next_node n) cs"
    by (auto simp: chain_Cons)
  from n(1) have "fst c < length h" by (rule lookup_Some_less)
  with Cons.prems(2,3) n(1) have "lookup h' (fst c) = Some n"
    by (auto simp: heap_frame_def)
  moreover from Cons.prems(3) have "fst ` set cs \<inter> A = {}" by auto
  with n(4) Cons.prems(2) have "chain h' (next_node n) cs" by (intro Cons.IH)
  ultimately show ?case using n by (simp add: chain_Cons)
qed

section \<open>Iterators on a chain\<close>

lemma iter_deref_Heap:
  "lookup (heap w) a = Some n \<Longrightarrow> iter_deref b w (BasicIterator (Some (Heap a))) = Inr (node_value n)"
  by (simp add: iter_deref_def assert_def and_then_def defined_def load_def)

lemma iter_inc_Heap:
  "lookup (heap w) a = Some n \<Longrightarrow>
     iter_inc b w (BasicIterator (Some (Heap a))) = Inr (BasicIterator (next_node n))"
  by (simp add: iter_inc_def assert_def and_then_def defined_def load_def)

lemma iter_ne_None [simp]:
  "iter_ne (BasicIterator p) (BasicIterator None) = (p \<noteq> None)"
  "iter_eq (BasicIterator p) (BasicIterator None) = (p = None)"
  by (simp_all add: iter_ne_def iter_eq_def)



lemma word_of_unat: "unat (x :: 64 word) = n \<Longrightarrow> x = of_nat n"
  by auto

lemma GetSize_holds: "holds w this xs \<Longrightarrow> GetSize w this = Inr (of_nat (length xs))"
  by (auto simp: holds_def GetSize_def and_then_def defined_def dest: word_of_unat
      split: option.splits)

lemma std_equal_chain:
  "chain (heap w) p cs \<Longrightarrow> chain (heap w) q ds \<Longrightarrow>
     std_equal eq b w (BasicIterator p) (BasicIterator None) (BasicIterator q) (BasicIterator None) =
       Some (Inr (list_all2 eq (map snd cs) (map snd ds)))"
proof (induction cs arbitrary: p q ds)
  case Nil
  then show ?case by (subst std_equal.simps) auto
next
  case (Cons c cs)
  from Cons.prems(1) obtain n where n: "lookup (heap w) (fst c) = Some n" "p = Some (Heap (fst c))"
      "node_value n = snd c" "chain (heap w) (next_node n) cs"
    by (auto simp: chain_Cons)
  show ?case
  proof (cases ds)
    case Nil
    with Cons.prems(2) n show ?thesis by (subst std_equal.simps) auto
  next
    case (Cons d ds')
    with Cons.prems(2) obtain m where m: "lookup (heap w) (fst d) = Some m"
        "q = Some (Heap (fst d))" "node_value m = snd d" "chain (heap w) (next_node m) ds'"
      by (auto simp: chain_Cons)
    from Cons.IH [OF n(4) m(4)] n m Cons show ?thesis
      by (subst std_equal.simps) (simp add: iter_deref_Heap iter_inc_Heap)
  qed
qed

text \<open>
  Claim C6: for two lists that hold the sequences \<open>xs\<close> and \<open>ys\<close>, \<^verbatim>\<open>A == B\<close> returns, and
  returns true exactly when the sequences have the same length and, at every position,
  elements that are equal by the \<^verbatim>\<open>operator==\<close> of the element type (\<open>eq\<close>, of which
  nothing is assumed).
\<close>

theorem list_eq_iff:
  "holds w A xs \<Longrightarrow> holds w B ys \<Longrightarrow>
     list_eq eq b w A B =
       Some (Inr (length xs = length ys \<and> (\<forall>i<length xs. eq (xs ! i) (ys ! i))))"
  by (auto simp: holds_def list_eq_def begin_it_def end_it_def and_then_def defined_def
        std_equal_chain list_all2_conv_all_nth split: option.splits)

lemma holds_list_1_and_2: "holds list_1_and_2 0 [1]" "holds list_1_and_2 2 [2]"
proof -
  have "chain (heap list_1_and_2) (Some (Heap 0)) [(0, 1)]"
       "chain (heap list_1_and_2) (Some (Heap 1)) [(1, 2)]"
    by (simp_all add: list_1_and_2_def lookup_def chain_Cons)
  then have "\<exists>cs. chain (heap list_1_and_2) (Some (Heap 0)) cs \<and> map snd cs = [1]"
     "\<exists>cs. chain (heap list_1_and_2) (Some (Heap 1)) cs \<and> map snd cs = [2]"
    by (intro exI [of _ "[(0, 1)]"] exI [of _ "[(1, 2)]"]; simp)+
  then show "holds list_1_and_2 0 [1]" "holds list_1_and_2 2 [2]"
    by (simp_all add: holds_def get_list_def lookup_def list_1_and_2_def)
qed

theorem list_eq_iff_witness:
  "holds list_1_and_2 0 [1] \<and> holds list_1_and_2 2 [2]
   \<and> list_eq (=) Debug list_1_and_2 0 2 = Some (Inr False)
   \<and> list_eq (=) Debug list_1_and_2 0 0 = Some (Inr True)
   \<and> list_eq (\<lambda>x y. False) Debug list_1_and_2 0 0 = Some (Inr False)"
  using list_eq_iff [OF holds_list_1_and_2(1) holds_list_1_and_2(2), of "(=)" Debug]
    list_eq_iff [OF holds_list_1_and_2(1) holds_list_1_and_2(1), of "(=)" Debug]
    list_eq_iff [OF holds_list_1_and_2(1) holds_list_1_and_2(1), of "\<lambda>x y. False" Debug]
    holds_list_1_and_2
  by simp

section \<open>The effect of the operations on a chain\<close>

lemma and_then_simps [simp]:
  "and_then (Inr x) f = f x"
  "and_then (Inl e) f = Inl e"
  by (simp_all add: and_then_def)

lemma defined_simps [simp]:
  "defined (Some x) = Inr x"
  "defined None = Inl UndefinedBehaviour"
  by (simp_all add: defined_def)

lemma assert_simps [simp]:
  "assert b (Inr True) = Inr ()"
  "assert Release c = Inr ()"
  "assert Debug (Inr False) = Inl AssertionFailed"
  by (simp_all add: assert_def)

lemma get_put_list:
  "get_list (put_list w t l) j = (if j = t \<and> t < length (objects w) then Some l else get_list w j)"
  by (auto simp: get_list_def put_list_def lookup_update)

lemma get_list_heap_update [simp]: "get_list (w\<lparr>heap := h\<rparr>) j = get_list w j"
  by (simp add: get_list_def)

lemma put_list_simps [simp]:
  "heap (put_list w t l) = heap w"
  "length (objects (put_list w t l)) = length (objects w)"
  by (simp_all add: put_list_def)

lemma get_list_less: "get_list w t = Some l \<Longrightarrow> t < length (objects w)"
  by (simp add: get_list_def lookup_Some_less)

lemma get_put_list_same [simp]:
  "get_list w t = Some l \<Longrightarrow> get_list (put_list w t l') t = Some l'"
  by (simp add: get_put_list get_list_less)

lemma put_put_list [simp]: "put_list (put_list w t l) t l' = put_list w t l'"
  by (simp add: put_list_def)

lemma load_Sentinel: "get_list w t = Some l \<Longrightarrow> load w (Sentinel t) = Some (head_node l)"
  by (simp add: load_def)

lemma load_Heap: "load w (Heap a) = lookup (heap w) a"
  by (simp add: load_def)

lemma set_next_node_Sentinel:
  "get_list w t = Some l \<Longrightarrow>
     set_next_node w (Sentinel t) q = Inr (put_list w t (l\<lparr>head_node := (head_node l)\<lparr>next_node := q\<rparr>\<rparr>))"
  by (simp add: set_next_node_def)

lemma set_next_node_Heap:
  "lookup (heap w) a = Some n \<Longrightarrow>
     set_next_node w (Heap a) q = Inr (w\<lparr>heap := (heap w)[a := Some (n\<lparr>next_node := q\<rparr>)]\<rparr>)"
  by (simp add: set_next_node_def)

lemma new_Node_ok:
  "\<not> E (length (heap w)) v \<Longrightarrow>
     new_Node E w v q =
       Inr (Heap (length (heap w)), w\<lparr>heap := heap w @ [Some \<lparr>node_value = v, next_node = q\<rparr>]\<rparr>)"
  by (simp add: new_Node_def)

lemma new_Node_throws: "E (length (heap w)) v \<Longrightarrow> new_Node E w v q = Inl (Thrown w)"
  by (simp add: new_Node_def)

lemma others_same_put_list: "others_same t w (put_list w t l)"
  by (simp add: others_same_def get_put_list)

lemma others_same_heap_update [simp]:
  "others_same t (w\<lparr>heap := h\<rparr>) w' = others_same t w w'"
  "others_same t w (w'\<lparr>heap := h\<rparr>) = others_same t w w'"
  by (simp_all add: others_same_def)

lemma chain_insert:
  assumes "chain h p (pre @ c # post)" and "lookup h (fst c) = Some na"
  shows "chain ((h @ [Some \<lparr>node_value = v, next_node = next_node na\<rparr>])
                  [fst c := Some (na\<lparr>next_node := Some (Heap (length h))\<rparr>)])
               p (pre @ c # (length h, v) # post)"
proof -
  define h' where "h' = (h @ [Some \<lparr>node_value = v, next_node = next_node na\<rparr>])
                  [fst c := Some (na\<lparr>next_node := Some (Heap (length h))\<rparr>)]"
  from assms(2) have less: "fst c < length h" by (rule lookup_Some_less)
  have frame: "heap_frame {fst c} h h'"
    by (auto simp: heap_frame_def h'_def lookup_update lookup_append)
  from assms(1) have "distinct (map fst (pre @ c # post))" by (rule chain_distinct)
  then have notin: "fst c \<notin> fst ` set pre" "fst c \<notin> fst ` set post" by auto
  from assms(1) notin(1) have "chain h' p (pre @ c # (length h, v) # post)"
  proof (induction pre arbitrary: p)
    case Nil
    then obtain n where "lookup h (fst c) = Some n" "p = Some (Heap (fst c))"
        "node_value n = snd c" "chain h (next_node n) post"
      by (auto simp: chain_Cons)
    with assms(2) have p: "p = Some (Heap (fst c))" "node_value na = snd c"
        "chain h (next_node na) post"
      by simp_all
    from notin(2) have "fst ` set post \<inter> {fst c} = {}" by auto
    with p(3) frame have "chain h' (next_node na) post"
      by (rule chain_frame)
    moreover have "lookup h' (fst c) = Some (na\<lparr>next_node := Some (Heap (length h))\<rparr>)"
      using less by (simp add: h'_def lookup_update)
    moreover have "lookup h' (length h) = Some \<lparr>node_value = v, next_node = next_node na\<rparr>"
      using less by (simp add: h'_def lookup_update lookup_append lookup_def)
    ultimately show ?case using p by (simp add: chain_Cons)
  next
    case (Cons x pre)
    from Cons.prems(1) obtain n where n: "lookup h (fst x) = Some n" "p = Some (Heap (fst x))"
        "node_value n = snd x" "chain h (next_node n) (pre @ c # post)"
      by (auto simp: chain_Cons)
    from Cons.prems(2) have ne: "fst x \<noteq> fst c" "fst c \<notin> fst ` set pre" by auto
    from n(1) have "fst x < length h" by (rule lookup_Some_less)
    with ne(1) n(1) frame have "lookup h' (fst x) = Some n"
      by (simp add: heap_frame_def)
    with Cons.IH [OF n(4) ne(2)] n show ?case by (simp add: chain_Cons)
  qed
  then show ?thesis by (simp add: h'_def)
qed

lemma chain_last_live:
  "chain h p (pre @ [c] @ post) \<Longrightarrow> \<exists>n. lookup h (fst c) = Some n \<and> node_value n = snd c
     \<and> chain h (next_node n) post"
  by (induction pre arbitrary: p) (auto simp: chain_Cons)

lemma InsertAfter_effect:
  assumes g: "get_list w t = Some lt"
    and c: "chain (heap w) (next_node (head_node lt)) (pre @ post)"
    and e: "\<not> E (length (heap w)) v"
  shows "\<exists>w' lt'. InsertAfter b E w t (BasicIterator (Some (pos_after t pre))) v =
             Inr (BasicIterator (Some (Heap (length (heap w)))), w')
           \<and> get_list w' t = Some lt'
           \<and> chain (heap w') (next_node (head_node lt')) (pre @ (length (heap w), v) # post)
           \<and> size_count lt' = size_count lt + 1
           \<and> others_same t w w'
           \<and> length (heap w') = Suc (length (heap w))
           \<and> heap_frame (if pre = [] then {} else {fst (last pre)}) (heap w) (heap w')"
proof (cases pre rule: rev_cases)
  case Nil
  define n where "n = length (heap w)"
  define w1 where "w1 = w\<lparr>heap := heap w @ [Some \<lparr>node_value = v, next_node = next_node (head_node lt)\<rparr>]\<rparr>"
  define l2 where "l2 = lt\<lparr>head_node := (head_node lt)\<lparr>next_node := Some (Heap n)\<rparr>\<rparr>"
  define w3 where "w3 = put_list w1 t (l2\<lparr>size_count := size_count l2 + 1\<rparr>)"
  have g1: "get_list w1 t = Some lt" using g by (simp add: w1_def)
  have s1: "load w (Sentinel t) = Some (head_node lt)" using g by (rule load_Sentinel)
  have s2: "new_Node E w v (next_node (head_node lt)) = Inr (Heap n, w1)"
    using e by (simp add: new_Node_ok n_def w1_def)
  have s3: "set_next_node w1 (Sentinel t) (Some (Heap n)) = Inr (put_list w1 t l2)"
    using g1 by (simp add: set_next_node_Sentinel l2_def)
  have s4: "get_list (put_list w1 t l2) t = Some l2" using g1 by simp
  have g3: "get_list w3 t = Some (l2\<lparr>size_count := size_count l2 + 1\<rparr>)"
    using g1 by (simp add: w3_def)
  have s5: "load w3 (Sentinel t) = Some (head_node l2)"
    using load_Sentinel [OF g3] by simp
  have run: "InsertAfter b E w t (BasicIterator (Some (Sentinel t))) v =
      Inr (BasicIterator (Some (Heap n)), w3)"
    by (simp add: InsertAfter_def s1 s2 s3 s4 w3_def [symmetric] s5) (simp add: l2_def)
  have hw3: "heap w3 = heap w @ [Some \<lparr>node_value = v, next_node = next_node (head_node lt)\<rparr>]"
    by (simp add: w3_def w1_def)
  have frame: "heap_frame {} (heap w) (heap w3)"
    by (simp add: heap_frame_def hw3 lookup_append)
  from c Nil have "chain (heap w) (next_node (head_node lt)) post" by simp
  then have "chain (heap w3) (next_node (head_node lt)) post"
    using frame by (rule chain_frame) simp
  then have "chain (heap w3) (Some (Heap n)) ((n, v) # post)"
    by (simp add: chain_Cons hw3 lookup_append n_def lookup_def)
  then have r3: "chain (heap w3) (next_node (head_node (l2\<lparr>size_count := size_count l2 + 1\<rparr>)))
      (pre @ (length (heap w), v) # post)"
    using Nil by (simp add: l2_def n_def)
  have r1: "InsertAfter b E w t (BasicIterator (Some (pos_after t pre))) v =
      Inr (BasicIterator (Some (Heap (length (heap w)))), w3)"
    using run Nil by (simp add: pos_after_def n_def)
  have r4: "size_count (l2\<lparr>size_count := size_count l2 + 1\<rparr>) = size_count lt + 1"
    by (simp add: l2_def)
  have r5: "others_same t w w3"
    using others_same_put_list [of t w1] by (simp add: w3_def w1_def)
  have r6: "length (heap w3) = Suc (length (heap w))" by (simp add: hw3)
  have r7: "heap_frame (if pre = [] then {} else {fst (last pre)}) (heap w) (heap w3)"
    using frame Nil by simp
  from r1 g3 r3 r4 r5 r6 r7 show ?thesis by blast
next
  case (snoc pre' x)
  from c snoc obtain na where na: "lookup (heap w) (fst x) = Some na"
    using chain_last_live [of "heap w" _ pre' x post] by auto
  from na have lx: "fst x < length (heap w)" by (rule lookup_Some_less)
  define n where "n = length (heap w)"
  define w1 where "w1 = w\<lparr>heap := heap w @ [Some \<lparr>node_value = v, next_node = next_node na\<rparr>]\<rparr>"
  define w2 where "w2 = w1\<lparr>heap := (heap w1)[fst x := Some (na\<lparr>next_node := Some (Heap n)\<rparr>)]\<rparr>"
  define w3 where "w3 = put_list w2 t (lt\<lparr>size_count := size_count lt + 1\<rparr>)"
  have s1: "load w (Heap (fst x)) = Some na" using na by (simp add: load_Heap)
  have s2: "new_Node E w v (next_node na) = Inr (Heap n, w1)"
    using e by (simp add: new_Node_ok n_def w1_def)
  have "lookup (heap w1) (fst x) = Some na"
    using na lx by (simp add: w1_def lookup_append)
  then have s3: "set_next_node w1 (Heap (fst x)) (Some (Heap n)) = Inr w2"
    by (simp add: set_next_node_Heap w2_def)
  have g2: "get_list w2 t = Some lt" using g by (simp add: w2_def w1_def)
  have g3: "get_list w3 t = Some (lt\<lparr>size_count := size_count lt + 1\<rparr>)"
    using g2 by (simp add: w3_def)
  have hw3: "heap w3 = (heap w @ [Some \<lparr>node_value = v, next_node = next_node na\<rparr>])
                [fst x := Some (na\<lparr>next_node := Some (Heap n)\<rparr>)]"
    by (simp add: w3_def w2_def w1_def)
  have s5: "load w3 (Heap (fst x)) = Some (na\<lparr>next_node := Some (Heap n)\<rparr>)"
    using lx by (simp add: load_Heap hw3 lookup_update)
  have run: "InsertAfter b E w t (BasicIterator (Some (Heap (fst x)))) v =
      Inr (BasicIterator (Some (Heap n)), w3)"
    by (simp add: InsertAfter_def s1 s2 s3 g2 w3_def [symmetric] s5)
  have frame: "heap_frame {fst x} (heap w) (heap w3)"
    by (auto simp: heap_frame_def hw3 lookup_append lookup_update)
  from c snoc have "chain (heap w) (next_node (head_node lt)) (pre' @ x # post)" by simp
  from chain_insert [OF this na, of v]
  have "chain (heap w3) (next_node (head_node lt)) (pre' @ x # (n, v) # post)"
    by (simp add: hw3 n_def)
  then have r3: "chain (heap w3) (next_node (head_node (lt\<lparr>size_count := size_count lt + 1\<rparr>)))
      (pre @ (length (heap w), v) # post)"
    using snoc by (simp add: n_def)
  have r1: "InsertAfter b E w t (BasicIterator (Some (pos_after t pre))) v =
      Inr (BasicIterator (Some (Heap (length (heap w)))), w3)"
    using run snoc by (simp add: pos_after_def n_def)
  have r4: "size_count (lt\<lparr>size_count := size_count lt + 1\<rparr>) = size_count lt + 1"
    by simp
  have r5: "others_same t w w3"
    using others_same_put_list [of t w2] by (simp add: w3_def w2_def w1_def)
  have r6: "length (heap w3) = Suc (length (heap w))" by (simp add: hw3)
  have r7: "heap_frame (if pre = [] then {} else {fst (last pre)}) (heap w) (heap w3)"
    using frame snoc by simp
  from r1 g3 r3 r4 r5 r6 r7 show ?thesis by blast
qed

lemma chain_Cons_live:
  assumes "chain h p (c # post)" and "lookup h (fst c) = Some na"
  shows "p = Some (Heap (fst c))" "node_value na = snd c" "chain h (next_node na) post"
proof -
  from assms(1) obtain n where "lookup h (fst c) = Some n" "p = Some (Heap (fst c))"
      "node_value n = snd c" "chain h (next_node n) post"
    by (auto simp: chain_Cons)
  with assms(2) show "p = Some (Heap (fst c))" "node_value na = snd c"
      "chain h (next_node na) post"
    by simp_all
qed

lemma chain_erase:
  assumes "chain h p (pre @ x # c # post)"
    and "lookup h (fst x) = Some nx" and "lookup h (fst c) = Some nc"
  shows "chain (h[fst c := None, fst x := Some (nx\<lparr>next_node := next_node nc\<rparr>)]) p (pre @ x # post)"
proof -
  define h' where "h' = h[fst c := None, fst x := Some (nx\<lparr>next_node := next_node nc\<rparr>)]"
  from assms(2) have lx: "fst x < length h" by (rule lookup_Some_less)
  have frame: "heap_frame {fst c, fst x} h h'"
    by (auto simp: heap_frame_def h'_def lookup_update)
  from assms(1) have "distinct (map fst (pre @ x # c # post))" by (rule chain_distinct)
  then have notin: "fst x \<notin> fst ` set pre" "fst c \<notin> fst ` set pre" "fst x \<notin> fst ` set post"
      "fst c \<notin> fst ` set post" "fst x \<noteq> fst c"
    by auto
  from assms(1) notin(1,2) have "chain h' p (pre @ x # post)"
  proof (induction pre arbitrary: p)
    case Nil
    then have "chain h p (x # c # post)" by simp
    from chain_Cons_live [OF this assms(2)]
    have p: "p = Some (Heap (fst x))" "node_value nx = snd x" "chain h (next_node nx) (c # post)" .
    from chain_Cons_live [OF p(3) assms(3)] have q: "chain h (next_node nc) post" by simp
    from notin(3,4) have "fst ` set post \<inter> {fst c, fst x} = {}" by auto
    with q frame have "chain h' (next_node nc) post" by (rule chain_frame)
    moreover have "lookup h' (fst x) = Some (nx\<lparr>next_node := next_node nc\<rparr>)"
      using lx by (simp add: h'_def lookup_update)
    ultimately show ?case using p by (simp add: chain_Cons)
  next
    case (Cons y pre)
    from Cons.prems(1) obtain n where n: "lookup h (fst y) = Some n" "p = Some (Heap (fst y))"
        "node_value n = snd y" "chain h (next_node n) (pre @ x # c # post)"
      by (auto simp: chain_Cons)
    from Cons.prems(2,3) have ne: "fst y \<noteq> fst x" "fst y \<noteq> fst c" "fst x \<notin> fst ` set pre"
        "fst c \<notin> fst ` set pre"
      by auto
    from n(1) have "fst y < length h" by (rule lookup_Some_less)
    with ne(1,2) n(1) frame have "lookup h' (fst y) = Some n"
      by (simp add: heap_frame_def)
    with Cons.IH [OF n(4) ne(3,4)] n show ?case by (simp add: chain_Cons)
  qed
  then show ?thesis by (simp add: h'_def)
qed

lemma delete_Node_Heap:
  "lookup (heap w) a = Some n \<Longrightarrow> delete_Node w (Some (Heap a)) = Inr (w\<lparr>heap := (heap w)[a := None]\<rparr>)"
  by (simp add: delete_Node_def)

lemma IsEmpty_get: "get_list w t = Some l \<Longrightarrow> IsEmpty w t = Inr (size_count l = 0)"
  by (simp add: IsEmpty_def)

lemma EraseAfter_effect:
  assumes g: "get_list w t = Some lt"
    and c: "chain (heap w) (next_node (head_node lt)) (pre @ x # post)"
    and ne: "size_count lt \<noteq> 0"
  shows "\<exists>w' lt' q. EraseAfter b w t (BasicIterator (Some (pos_after t pre))) = Inr (BasicIterator q, w')
           \<and> chain (heap w') q post
           \<and> get_list w' t = Some lt'
           \<and> chain (heap w') (next_node (head_node lt')) (pre @ post)
           \<and> size_count lt' = size_count lt - 1
           \<and> others_same t w w'
           \<and> length (heap w') = length (heap w)
           \<and> heap_frame (insert (fst x) (if pre = [] then {} else {fst (last pre)})) (heap w) (heap w')"
proof -
  have a: "assert b (and_then (IsEmpty w t) (\<lambda>e. Inr (\<not> e))) = Inr ()"
    using ne by (cases b) (simp_all add: IsEmpty_get [OF g])
  from c obtain nc where nc: "lookup (heap w) (fst x) = Some nc" "node_value nc = snd x"
      "chain (heap w) (next_node nc) post"
    using chain_last_live [of "heap w" _ pre x post] by auto
  show ?thesis
  proof (cases pre rule: rev_cases)
    case Nil
    define w1 where "w1 = w\<lparr>heap := (heap w)[fst x := None]\<rparr>"
    define l2 where "l2 = lt\<lparr>head_node := (head_node lt)\<lparr>next_node := next_node nc\<rparr>\<rparr>"
    define w3 where "w3 = put_list (put_list w1 t l2) t (l2\<lparr>size_count := size_count l2 - 1\<rparr>)"
    from c Nil have c0: "chain (heap w) (next_node (head_node lt)) (x # post)" by simp
    from chain_Cons_live [OF c0 nc(1)] have hd: "next_node (head_node lt) = Some (Heap (fst x))"
      by simp
    have g1: "get_list w1 t = Some lt" using g by (simp add: w1_def)
    have s1: "load w (Sentinel t) = Some (head_node lt)" using g by (rule load_Sentinel)
    have s2: "load w (Heap (fst x)) = Some nc" using nc(1) by (simp add: load_Heap)
    have s3: "delete_Node w (Some (Heap (fst x))) = Inr w1"
      using nc(1) by (simp add: delete_Node_Heap w1_def)
    have s4: "set_next_node w1 (Sentinel t) (next_node nc) = Inr (put_list w1 t l2)"
      using g1 by (simp add: set_next_node_Sentinel l2_def)
    have s5: "get_list (put_list w1 t l2) t = Some l2" using g1 by simp
    have run: "EraseAfter b w t (BasicIterator (Some (Sentinel t))) = Inr (BasicIterator (next_node nc), w3)"
      by (simp add: EraseAfter_def a s1 hd s2 s3 s4 s5 w3_def)
    have hw3: "heap w3 = (heap w)[fst x := None]" by (simp add: w3_def w1_def)
    have frame: "heap_frame {fst x} (heap w) (heap w3)"
      by (auto simp: heap_frame_def hw3 lookup_update)
    from chain_head_notin [OF c0] have "fst ` set post \<inter> {fst x} = {}" by auto
    with nc(3) frame have r2: "chain (heap w3) (next_node nc) post" by (rule chain_frame)
    have g3: "get_list w3 t = Some (l2\<lparr>size_count := size_count l2 - 1\<rparr>)"
      using g1 by (simp add: w3_def)
    have r1: "EraseAfter b w t (BasicIterator (Some (pos_after t pre))) = Inr (BasicIterator (next_node nc), w3)"
      using run Nil by (simp add: pos_after_def)
    have r4: "chain (heap w3) (next_node (head_node (l2\<lparr>size_count := size_count l2 - 1\<rparr>))) (pre @ post)"
      using r2 Nil by (simp add: l2_def)
    have r5: "size_count (l2\<lparr>size_count := size_count l2 - 1\<rparr>) = size_count lt - 1"
      by (simp add: l2_def)
    have r6: "others_same t w w3"
      using others_same_put_list [of t w1] by (simp add: w3_def w1_def)
    have r7: "length (heap w3) = length (heap w)" by (simp add: hw3)
    have r8: "heap_frame (insert (fst x) (if pre = [] then {} else {fst (last pre)})) (heap w) (heap w3)"
      using frame Nil by simp
    from r1 r2 g3 r4 r5 r6 r7 r8 show ?thesis by blast
  next
    case (snoc pre' y)
    with c have c0: "chain (heap w) (next_node (head_node lt)) (pre' @ y # x # post)" by simp
    then obtain ny where ny: "lookup (heap w) (fst y) = Some ny" "node_value ny = snd y"
        "chain (heap w) (next_node ny) (x # post)"
      using chain_last_live [of "heap w" _ pre' y "x # post"] by auto
    from chain_Cons_live [OF ny(3) nc(1)] have nxt: "next_node ny = Some (Heap (fst x))" by simp
    from chain_distinct [OF c0] have neq: "fst y \<noteq> fst x" by auto
    from ny(1) have ly: "fst y < length (heap w)" by (rule lookup_Some_less)
    define w1 where "w1 = w\<lparr>heap := (heap w)[fst x := None]\<rparr>"
    define w2 where "w2 = w1\<lparr>heap := (heap w1)[fst y := Some (ny\<lparr>next_node := next_node nc\<rparr>)]\<rparr>"
    define w3 where "w3 = put_list w2 t (lt\<lparr>size_count := size_count lt - 1\<rparr>)"
    have s1: "load w (Heap (fst y)) = Some ny" using ny(1) by (simp add: load_Heap)
    have s2: "load w (Heap (fst x)) = Some nc" using nc(1) by (simp add: load_Heap)
    have s3: "delete_Node w (Some (Heap (fst x))) = Inr w1"
      using nc(1) by (simp add: delete_Node_Heap w1_def)
    have "lookup (heap w1) (fst y) = Some ny"
      using ny(1) neq by (simp add: w1_def lookup_update)
    then have s4: "set_next_node w1 (Heap (fst y)) (next_node nc) = Inr w2"
      by (simp add: set_next_node_Heap w2_def)
    have g2: "get_list w2 t = Some lt" using g by (simp add: w2_def w1_def)
    have run: "EraseAfter b w t (BasicIterator (Some (Heap (fst y)))) = Inr (BasicIterator (next_node nc), w3)"
      by (simp add: EraseAfter_def a s1 nxt s2 s3 s4 g2 w3_def)
    have hw3: "heap w3 = (heap w)[fst x := None, fst y := Some (ny\<lparr>next_node := next_node nc\<rparr>)]"
      by (simp add: w3_def w2_def w1_def)
    have frame: "heap_frame {fst x, fst y} (heap w) (heap w3)"
      by (auto simp: heap_frame_def hw3 lookup_update)
    from chain_distinct [OF c0] have "fst ` set post \<inter> {fst x, fst y} = {}" by auto
    with nc(3) frame have r2: "chain (heap w3) (next_node nc) post" by (rule chain_frame)
    have g3: "get_list w3 t = Some (lt\<lparr>size_count := size_count lt - 1\<rparr>)"
      using g2 by (simp add: w3_def)
    have r1: "EraseAfter b w t (BasicIterator (Some (pos_after t pre))) = Inr (BasicIterator (next_node nc), w3)"
      using run snoc by (simp add: pos_after_def)
    from chain_erase [OF c0 ny(1) nc(1)]
    have r4: "chain (heap w3) (next_node (head_node (lt\<lparr>size_count := size_count lt - 1\<rparr>))) (pre @ post)"
      using snoc by (simp add: hw3)
    have r5: "size_count (lt\<lparr>size_count := size_count lt - 1\<rparr>) = size_count lt - 1"
      by simp
    have r6: "others_same t w w3"
      using others_same_put_list [of t w2] by (simp add: w3_def w2_def w1_def)
    have r7: "length (heap w3) = length (heap w)" by (simp add: hw3)
    have r8: "heap_frame (insert (fst x) (if pre = [] then {} else {fst (last pre)})) (heap w) (heap w3)"
      using frame snoc by simp
    from r1 r2 g3 r4 r5 r6 r7 r8 show ?thesis by blast
  qed
qed

lemma others_same_refl: "others_same t w w"
  by (simp add: others_same_def)

lemma others_same_trans: "others_same t w w1 \<Longrightarrow> others_same t w1 w2 \<Longrightarrow> others_same t w w2"
  by (simp add: others_same_def)

lemma PopFront_effect:
  assumes g: "get_list w t = Some lt"
    and c: "chain (heap w) (next_node (head_node lt)) (x # post)"
    and ne: "size_count lt \<noteq> 0"
  shows "\<exists>w' lt'. PopFront b w t = Inr ((), w')
           \<and> get_list w' t = Some lt'
           \<and> chain (heap w') (next_node (head_node lt')) post
           \<and> size_count lt' = size_count lt - 1
           \<and> others_same t w w'
           \<and> length (heap w') = length (heap w)
           \<and> heap_frame {fst x} (heap w) (heap w')"
proof -
  have a: "assert b (and_then (IsEmpty w t) (\<lambda>e. Inr (\<not> e))) = Inr ()"
    using ne by (cases b) (simp_all add: IsEmpty_get [OF g])
  from c obtain nc where nc: "lookup (heap w) (fst x) = Some nc"
    by (auto simp: chain_Cons)
  from chain_Cons_live [OF c nc]
  have hd: "next_node (head_node lt) = Some (Heap (fst x))" and rest: "chain (heap w) (next_node nc) post"
    by simp_all
  define l1 where "l1 = lt\<lparr>head_node := (head_node lt)\<lparr>next_node := next_node nc\<rparr>\<rparr>"
  define l2 where "l2 = l1\<lparr>size_count := size_count l1 - 1\<rparr>"
  define w2 where "w2 = put_list w t l2"
  define w3 where "w3 = w2\<lparr>heap := (heap w2)[fst x := None]\<rparr>"
  have s2: "load w (Heap (fst x)) = Some nc" using nc by (simp add: load_Heap)
  have s3: "set_next_node w (Sentinel t) (next_node nc) = Inr (put_list w t l1)"
    using g by (simp add: set_next_node_Sentinel l1_def)
  have s4: "get_list (put_list w t l1) t = Some l1" using g by simp
  have "lookup (heap w2) (fst x) = Some nc" using nc by (simp add: w2_def)
  then have s5: "delete_Node w2 (Some (Heap (fst x))) = Inr w3"
    by (simp add: delete_Node_Heap w3_def)
  have run: "PopFront b w t = Inr ((), w3)"
    by (simp add: PopFront_def a g hd s2 s3 s4 l2_def [symmetric] w2_def [symmetric] s5)
  have hw3: "heap w3 = (heap w)[fst x := None]" by (simp add: w3_def w2_def)
  have frame: "heap_frame {fst x} (heap w) (heap w3)"
    by (auto simp: heap_frame_def hw3 lookup_update)
  from chain_head_notin [OF c] have "fst ` set post \<inter> {fst x} = {}" by auto
  with rest frame have "chain (heap w3) (next_node nc) post" by (rule chain_frame)
  then have r3: "chain (heap w3) (next_node (head_node l2)) post"
    by (simp add: l2_def l1_def)
  have g3: "get_list w3 t = Some l2" using g by (simp add: w3_def w2_def)
  have r4: "size_count l2 = size_count lt - 1" by (simp add: l2_def l1_def)
  have r5: "others_same t w w3"
    using others_same_put_list [of t w l2] by (simp add: w3_def w2_def)
  have r6: "length (heap w3) = length (heap w)" by (simp add: hw3)
  from run g3 r3 r4 r5 r6 frame show ?thesis by blast
qed

lemma Clear_loop_effect:
  "get_list w t = Some lt \<Longrightarrow> chain (heap w) (next_node (head_node lt)) cs \<Longrightarrow>
     \<exists>w' lt'. Clear_loop w t = Inr w'
        \<and> get_list w' t = Some lt' \<and> next_node (head_node lt') = None
        \<and> size_count lt' = size_count lt
        \<and> others_same t w w'
        \<and> length (heap w') = length (heap w)
        \<and> heap_frame (fst ` set cs) (heap w) (heap w')"
proof (induction cs arbitrary: w lt)
  case Nil
  then have "Clear_loop w t = Inr w"
    by (subst Clear_loop.simps) simp
  with Nil show ?case
    by (auto simp: others_same_refl heap_frame_refl)
next
  case (Cons x cs)
  note g = Cons.prems(1) and c = Cons.prems(2)
  from c obtain nc where nc: "lookup (heap w) (fst x) = Some nc"
    by (auto simp: chain_Cons)
  from chain_Cons_live [OF c nc]
  have hd: "next_node (head_node lt) = Some (Heap (fst x))" and rest: "chain (heap w) (next_node nc) cs"
    by simp_all
  define l1 where "l1 = lt\<lparr>head_node := (head_node lt)\<lparr>next_node := next_node nc\<rparr>\<rparr>"
  define w1 where "w1 = put_list w t l1"
  define w2 where "w2 = w1\<lparr>heap := (heap w1)[fst x := None]\<rparr>"
  have s2: "load w (Heap (fst x)) = Some nc" using nc by (simp add: load_Heap)
  have s3: "set_next_node w (Sentinel t) (next_node nc) = Inr w1"
    using g by (simp add: set_next_node_Sentinel l1_def w1_def)
  have "lookup (heap w1) (fst x) = Some nc" using nc by (simp add: w1_def)
  then have s4: "delete_Node w1 (Some (Heap (fst x))) = Inr w2"
    by (simp add: delete_Node_Heap w2_def)
  have step: "Clear_loop w t = Clear_loop w2 t"
    by (subst Clear_loop.simps) (simp add: g hd s2 s3 s4)
  have hw2: "heap w2 = (heap w)[fst x := None]" by (simp add: w2_def w1_def)
  have frame: "heap_frame {fst x} (heap w) (heap w2)"
    by (auto simp: heap_frame_def hw2 lookup_update)
  from chain_head_notin [OF c] have "fst ` set cs \<inter> {fst x} = {}" by auto
  with rest frame have "chain (heap w2) (next_node nc) cs" by (rule chain_frame)
  then have c2: "chain (heap w2) (next_node (head_node l1)) cs" by (simp add: l1_def)
  have g2: "get_list w2 t = Some l1" using g by (simp add: w2_def w1_def)
  from Cons.IH [OF g2 c2] obtain w' lt' where IH: "Clear_loop w2 t = Inr w'"
      "get_list w' t = Some lt'" "next_node (head_node lt') = None"
      "size_count lt' = size_count l1" "others_same t w2 w'"
      "length (heap w') = length (heap w2)" "heap_frame (fst ` set cs) (heap w2) (heap w')"
    by blast
  have os: "others_same t w w2"
    using others_same_put_list [of t w l1] by (simp add: w2_def w1_def)
  have r1: "Clear_loop w t = Inr w'" using step IH(1) by simp
  have r4: "size_count lt' = size_count lt" using IH(4) by (simp add: l1_def)
  have r5: "others_same t w w'" using os IH(5) by (rule others_same_trans)
  have r6: "length (heap w') = length (heap w)" using IH(6) by (simp add: hw2)
  from frame have "heap_frame (fst ` set (x # cs)) (heap w) (heap w2)"
    by (rule heap_frame_mono) auto
  then have r7: "heap_frame (fst ` set (x # cs)) (heap w) (heap w')"
    using IH(7) by (rule heap_frame_trans) auto
  from r1 IH(2,3) r4 r5 r6 r7 show ?case by blast
qed

lemma Clear_effect:
  assumes "get_list w t = Some lt" and "chain (heap w) (next_node (head_node lt)) cs"
  shows "\<exists>w' lt'. Clear w t = Inr w'
        \<and> get_list w' t = Some lt' \<and> next_node (head_node lt') = None \<and> size_count lt' = 0
        \<and> others_same t w w'
        \<and> length (heap w') = length (heap w)
        \<and> heap_frame (fst ` set cs) (heap w) (heap w')"
proof -
  from Clear_loop_effect [OF assms] obtain w1 l1 where 1: "Clear_loop w t = Inr w1"
      "get_list w1 t = Some l1" "next_node (head_node l1) = None"
      "others_same t w w1" "length (heap w1) = length (heap w)"
      "heap_frame (fst ` set cs) (heap w) (heap w1)"
    by blast
  define w2 where "w2 = put_list w1 t (l1\<lparr>size_count := 0\<rparr>)"
  have run: "Clear w t = Inr w2" by (simp add: Clear_def 1(1,2) w2_def)
  have g2: "get_list w2 t = Some (l1\<lparr>size_count := 0\<rparr>)" using 1(2) by (simp add: w2_def)
  have r3: "next_node (head_node (l1\<lparr>size_count := 0\<rparr>)) = None" using 1(3) by simp
  have r4: "size_count (l1\<lparr>size_count := 0\<rparr>) = 0" by simp
  have "others_same t w1 w2" by (simp add: w2_def others_same_put_list)
  with 1(4) have r5: "others_same t w w2" by (rule others_same_trans)
  have r6: "length (heap w2) = length (heap w)" using 1(5) by (simp add: w2_def)
  have r7: "heap_frame (fst ` set cs) (heap w) (heap w2)" using 1(6) by (simp add: w2_def)
  from run g2 r3 r4 r5 r6 r7 show ?thesis by blast
qed

section \<open>Preservation of the invariant\<close>

lemma wf_world_chain:
  "wf_world w \<Longrightarrow> get_list w t = Some l \<Longrightarrow>
     \<exists>cs. chain (heap w) (next_node (head_node l)) cs \<and> unat (size_count l) = length cs"
  by (auto simp: wf_world_def count_inv_def)

lemma wf_world_size:
  "wf_world w \<Longrightarrow> get_list w t = Some l \<Longrightarrow> chain (heap w) (next_node (head_node l)) cs \<Longrightarrow>
     unat (size_count l) = length cs"
  using wf_world_chain [of w t l] by (auto dest: chain_unique)

lemma wf_world_separate:
  "wf_world w \<Longrightarrow> i \<noteq> j \<Longrightarrow> get_list w i = Some li \<Longrightarrow> get_list w j = Some lj \<Longrightarrow>
     chain (heap w) (next_node (head_node li)) cs \<Longrightarrow>
     chain (heap w) (next_node (head_node lj)) ds \<Longrightarrow> fst ` set cs \<inter> fst ` set ds = {}"
  unfolding wf_world_def separate_def by blast

lemma chain_below: "chain h p cs \<Longrightarrow> fst ` set cs \<inter> {length h..} = {}"
  by (auto dest: chain_bound)

text \<open>
  An operation that changes one list \<open>t\<close>, writes only to cells of that list and gives
  it a chain made of its old cells and of new ones, keeps the memory well-formed.
\<close>

lemma wf_world_frame:
  assumes wf: "wf_world w"
    and os: "others_same t w w'"
    and fr: "heap_frame A (heap w) (heap w')"
    and old: "get_list w t = Some lt" "chain (heap w) (next_node (head_node lt)) cs"
    and A: "A \<subseteq> fst ` set cs"
    and new: "get_list w' t = Some lt'" "chain (heap w') (next_node (head_node lt')) cs'"
      "unat (size_count lt') = length cs'"
    and sub: "fst ` set cs' \<subseteq> fst ` set cs \<union> {length (heap w)..}"
  shows "wf_world w'"
proof -
  have other: "\<exists>ds. chain (heap w) (next_node (head_node l)) ds \<and> chain (heap w') (next_node (head_node l)) ds
      \<and> unat (size_count l) = length ds \<and> fst ` set ds \<inter> fst ` set cs = {}"
    if "j \<noteq> t" "get_list w' j = Some l" for j l
  proof -
    from that os have g: "get_list w j = Some l" by (simp add: others_same_def)
    from wf_world_chain [OF wf g] obtain ds where ds: "chain (heap w) (next_node (head_node l)) ds"
        "unat (size_count l) = length ds"
      by blast
    from wf_world_separate [OF wf that(1) g old(1) ds(1) old(2)]
    have disj: "fst ` set ds \<inter> fst ` set cs = {}" .
    with A have "fst ` set ds \<inter> A = {}" by auto
    with ds(1) fr have "chain (heap w') (next_node (head_node l)) ds" by (rule chain_frame)
    with ds disj show ?thesis by blast
  qed
  have "count_inv w'"
    unfolding count_inv_def
  proof (intro allI impI)
    fix j l
    assume g: "get_list w' j = Some l"
    show "\<exists>cs. chain (heap w') (next_node (head_node l)) cs \<and> unat (size_count l) = length cs"
    proof (cases "j = t")
      case True
      with g new show ?thesis by auto
    next
      case False
      from other [OF False g] show ?thesis by blast
    qed
  qed
  moreover have "separate w'"
    unfolding separate_def
  proof (intro allI impI, elim conjE)
    fix i j li lj xs ys
    assume ij: "i \<noteq> j" and gi: "get_list w' i = Some li" and gj: "get_list w' j = Some lj"
      and ci: "chain (heap w') (next_node (head_node li)) xs"
      and cj: "chain (heap w') (next_node (head_node lj)) ys"
    have new_old: "fst ` set cs' \<inter> fst ` set ds = {}"
      if "k \<noteq> t" "get_list w' k = Some l" "chain (heap w') (next_node (head_node l)) ds" for k l ds
    proof -
      from other [OF that(1,2)] obtain ds' where ds': "chain (heap w) (next_node (head_node l)) ds'"
          "chain (heap w') (next_node (head_node l)) ds'" "fst ` set ds' \<inter> fst ` set cs = {}"
        by blast
      from ds'(2) that(3) have "ds' = ds" by (rule chain_unique)
      with ds' chain_below [OF ds'(1)] sub show ?thesis by blast
    qed
    show "fst ` set xs \<inter> fst ` set ys = {}"
    proof (cases "i = t")
      case True
      with gi ci new have "xs = cs'" by (auto dest: chain_unique)
      moreover from True ij have "j \<noteq> t" by simp
      ultimately show ?thesis using new_old [OF _ gj cj] by simp
    next
      case it: False
      show ?thesis
      proof (cases "j = t")
        case True
        with gj cj new have "ys = cs'" by (auto dest: chain_unique)
        with new_old [OF it gi ci] show ?thesis by auto
      next
        case jt: False
        from other [OF it gi] obtain xs' where xs': "chain (heap w) (next_node (head_node li)) xs'"
            "chain (heap w') (next_node (head_node li)) xs'"
          by blast
        from other [OF jt gj] obtain ys' where ys': "chain (heap w) (next_node (head_node lj)) ys'"
            "chain (heap w') (next_node (head_node lj)) ys'"
          by blast
        from xs'(2) ci have x: "xs' = xs" by (rule chain_unique)
        from ys'(2) cj have y: "ys' = ys" by (rule chain_unique)
        from gi gj it jt os have "get_list w i = Some li" "get_list w j = Some lj"
          by (simp_all add: others_same_def)
        from wf_world_separate [OF wf ij this xs'(1) ys'(1)] x y show ?thesis by simp
      qed
    qed
  qed
  ultimately show ?thesis by (simp add: wf_world_def)
qed

lemma well_ended_simps [simp]:
  "well_ended final (Inr x) = wf_world (final x)"
  "well_ended final (Inl (Thrown w')) = wf_world w'"
  by (simp_all add: well_ended_def)

lemma valid_pos_split:
  assumes "valid_pos w t pos" and "get_list w t = Some l"
    and "chain (heap w) (next_node (head_node l)) cs"
  shows "\<exists>pre post. cs = pre @ post \<and> pos = BasicIterator (Some (pos_after t pre))"
proof (cases "node pos = Some (Sentinel t)")
  case True
  then have "pos = BasicIterator (Some (pos_after t []))"
    by (cases pos) (simp add: pos_after_def)
  then show ?thesis by (intro exI [of _ "[]"] exI [of _ cs]) simp
next
  case False
  with assms(1,2) obtain cs' a where a: "chain (heap w) (next_node (head_node l)) cs'"
      "a \<in> fst ` set cs'" "node pos = Some (Heap a)"
    by (auto simp: valid_pos_def)
  from a(1) assms(3) have "cs' = cs" by (rule chain_unique)
  with a(2) obtain c where "c \<in> set cs" "fst c = a" by auto
  then obtain ys zs where split: "cs = ys @ c # zs" "fst c = a"
    by (auto simp: in_set_conv_decomp)
  with a(3) have "pos = BasicIterator (Some (pos_after t (ys @ [c])))"
    by (cases pos) (simp add: pos_after_def)
  with split(1) show ?thesis by (intro exI [of _ "ys @ [c]"] exI [of _ zs]) simp
qed

lemma load_pos_after:
  assumes "get_list w t = Some l" and "chain (heap w) (next_node (head_node l)) (pre @ post)"
  shows "\<exists>n. load w (pos_after t pre) = Some n \<and> chain (heap w) (next_node n) post"
proof (cases pre rule: rev_cases)
  case Nil
  with assms show ?thesis by (simp add: pos_after_def load_Sentinel)
next
  case (snoc pre' y)
  with assms(2) show ?thesis
    using chain_last_live [of "heap w" _ pre' y post] by (auto simp: pos_after_def load_Heap)
qed

lemma InsertAfter_throws:
  "load w p = Some n \<Longrightarrow> E (length (heap w)) v \<Longrightarrow>
     InsertAfter b E w t (BasicIterator (Some p)) v = Inl (Thrown w)"
  by (simp add: InsertAfter_def new_Node_throws)

lemma unat_inc: "unat (x :: 64 word) < 2 ^ 64 - 1 \<Longrightarrow> unat (x + 1) = Suc (unat x)"
  using unat_add_lem [of x 1] by simp

lemma unat_dec: "(x :: 64 word) \<noteq> 0 \<Longrightarrow> unat (x - 1) = unat x - 1"
  by (rule unat_minus_one)

lemma wf_InsertAfter:
  assumes wf: "wf_world w" and g: "get_list w t = Some l" and vp: "valid_pos w t pos"
    and sz: "unat (size_count l) < 2 ^ 64 - 1"
  shows "well_ended snd (InsertAfter b E w t pos v)"
proof -
  from wf_world_chain [OF wf g] obtain cs where cs: "chain (heap w) (next_node (head_node l)) cs"
      "unat (size_count l) = length cs"
    by blast
  from valid_pos_split [OF vp g cs(1)] obtain pre post where split: "cs = pre @ post"
      "pos = BasicIterator (Some (pos_after t pre))"
    by blast
  from cs(1) split(1) have c: "chain (heap w) (next_node (head_node l)) (pre @ post)" by simp
  show ?thesis
  proof (cases "E (length (heap w)) v")
    case True
    from load_pos_after [OF g c] obtain n where "load w (pos_after t pre) = Some n" by blast
    then have "InsertAfter b E w t (BasicIterator (Some (pos_after t pre))) v = Inl (Thrown w)"
      using True by (rule InsertAfter_throws)
    with split(2) wf show ?thesis by simp
  next
    case False
    from InsertAfter_effect [where E = E and v = v and b = b, OF g c False] obtain w' lt' where eff:
        "InsertAfter b E w t (BasicIterator (Some (pos_after t pre))) v =
           Inr (BasicIterator (Some (Heap (length (heap w)))), w')"
        "get_list w' t = Some lt'"
        "chain (heap w') (next_node (head_node lt')) (pre @ (length (heap w), v) # post)"
        "size_count lt' = size_count l + 1" "others_same t w w'"
        "heap_frame (if pre = [] then {} else {fst (last pre)}) (heap w) (heap w')"
      by blast
    have A: "(if pre = [] then {} else {fst (last pre)}) \<subseteq> fst ` set cs"
      using split(1) by auto
    have n: "unat (size_count lt') = length (pre @ (length (heap w), v) # post)"
      using eff(4) cs(2) split(1) sz by (simp add: unat_inc)
    have sub: "fst ` set (pre @ (length (heap w), v) # post) \<subseteq> fst ` set cs \<union> {length (heap w)..}"
      using split(1) by auto
    from wf_world_frame [OF wf eff(5) eff(6) g cs(1) A eff(2) eff(3) n sub]
    show ?thesis using eff(1) split(2) by simp
  qed
qed

lemma PushFront_InsertAfter:
  "PushFront E w this v =
     and_then (InsertAfter b E w this (before_begin this) v) (\<lambda>(it, w'). Inr ((), w'))"
  by (auto simp: PushFront_def InsertAfter_def before_begin_def assert_def and_then_def
        defined_def new_Node_def set_next_node_def load_def get_list_def put_list_def lookup_def
      split: option.splits sum.splits if_splits)

lemma wf_PushFront:
  assumes wf: "wf_world w" and g: "get_list w t = Some l" and sz: "unat (size_count l) < 2 ^ 64 - 1"
  shows "well_ended snd (PushFront E w t v)"
proof -
  have "valid_pos w t (before_begin t)" by (simp add: valid_pos_def before_begin_def)
  from wf_InsertAfter [OF wf g this sz, of Debug E v]
  show ?thesis
    by (subst PushFront_InsertAfter [of _ _ _ _ Debug])
       (auto simp: well_ended_def split: sum.splits error.splits)
qed

lemma wf_EraseAfter:
  assumes wf: "wf_world w" and g: "get_list w t = Some l" and vp: "valid_pos w t pos"
    and hn: "has_next w pos"
  shows "well_ended snd (EraseAfter b w t pos)"
proof -
  from wf_world_chain [OF wf g] obtain cs where cs: "chain (heap w) (next_node (head_node l)) cs"
      "unat (size_count l) = length cs"
    by blast
  from valid_pos_split [OF vp g cs(1)] obtain pre post where split: "cs = pre @ post"
      "pos = BasicIterator (Some (pos_after t pre))"
    by blast
  from cs(1) split(1) have c0: "chain (heap w) (next_node (head_node l)) (pre @ post)" by simp
  from load_pos_after [OF g c0] obtain n where n: "load w (pos_after t pre) = Some n"
      "chain (heap w) (next_node n) post"
    by blast
  from hn split(2) n(1) have "next_node n \<noteq> None" by (auto simp: has_next_def)
  with n(2) obtain x post' where post: "post = x # post'" by (cases post) auto
  with c0 have c: "chain (heap w) (next_node (head_node l)) (pre @ x # post')" by simp
  from cs(2) split(1) post have ne: "size_count l \<noteq> 0" by auto
  from EraseAfter_effect [OF g c ne, of b] obtain w' lt' q where eff:
      "EraseAfter b w t (BasicIterator (Some (pos_after t pre))) = Inr (BasicIterator q, w')"
      "get_list w' t = Some lt'"
      "chain (heap w') (next_node (head_node lt')) (pre @ post')"
      "size_count lt' = size_count l - 1" "others_same t w w'"
      "heap_frame (insert (fst x) (if pre = [] then {} else {fst (last pre)})) (heap w) (heap w')"
    by blast
  have A: "insert (fst x) (if pre = [] then {} else {fst (last pre)}) \<subseteq> fst ` set cs"
    using split(1) post by auto
  have len: "unat (size_count lt') = length (pre @ post')"
    using eff(4) cs(2) split(1) post ne by (simp add: unat_dec)
  have sub: "fst ` set (pre @ post') \<subseteq> fst ` set cs \<union> {length (heap w)..}"
    using split(1) post by auto
  from wf_world_frame [OF wf eff(5) eff(6) g cs(1) A eff(2) eff(3) len sub]
  show ?thesis using eff(1) split(2) by simp
qed

lemma wf_PopFront:
  assumes wf: "wf_world w" and g: "get_list w t = Some l" and ne: "size_count l \<noteq> 0"
  shows "well_ended snd (PopFront b w t)"
proof -
  from wf_world_chain [OF wf g] obtain cs where cs: "chain (heap w) (next_node (head_node l)) cs"
      "unat (size_count l) = length cs"
    by blast
  from cs(2) ne obtain x post where post: "cs = x # post"
    by (cases cs) (auto simp: unat_0_iff)
  with cs(1) have c: "chain (heap w) (next_node (head_node l)) (x # post)" by simp
  from PopFront_effect [OF g c ne, of b] obtain w' lt' where eff:
      "PopFront b w t = Inr ((), w')" "get_list w' t = Some lt'"
      "chain (heap w') (next_node (head_node lt')) post"
      "size_count lt' = size_count l - 1" "others_same t w w'"
      "heap_frame {fst x} (heap w) (heap w')"
    by blast
  have A: "{fst x} \<subseteq> fst ` set cs" using post by simp
  have len: "unat (size_count lt') = length post"
    using eff(4) cs(2) post ne by (simp add: unat_dec)
  have sub: "fst ` set post \<subseteq> fst ` set cs \<union> {length (heap w)..}"
    using post by auto
  from wf_world_frame [OF wf eff(5) eff(6) g cs(1) A eff(2) eff(3) len sub]
  show ?thesis using eff(1) by simp
qed

lemma wf_Clear:
  assumes wf: "wf_world w" and g: "get_list w t = Some l"
  shows "\<exists>w' l'. Clear w t = Inr w' \<and> wf_world w' \<and> get_list w' t = Some l'
           \<and> next_node (head_node l') = None \<and> size_count l' = 0 \<and> others_same t w w'"
proof -
  from wf_world_chain [OF wf g] obtain cs where cs: "chain (heap w) (next_node (head_node l)) cs"
    by blast
  from Clear_effect [OF g cs] obtain w' lt' where eff:
      "Clear w t = Inr w'" "get_list w' t = Some lt'" "next_node (head_node lt') = None"
      "size_count lt' = 0" "others_same t w w'" "heap_frame (fst ` set cs) (heap w) (heap w')"
    by blast
  have c': "chain (heap w') (next_node (head_node lt')) []" using eff(3) by simp
  have len: "unat (size_count lt') = length ([] :: (addr \<times> 'a) list)" using eff(4) by simp
  from wf_world_frame [OF wf eff(5) eff(6) g cs _ eff(2) c' len]
  have "wf_world w'" by simp
  with eff show ?thesis by blast
qed

section \<open>Operations on whole objects\<close>

text \<open>
  A memory with the same heap, whose list objects are empty or carry the chain and the
  count of an object of a well-formed memory, no two of them the same one, is
  well-formed.
\<close>

lemma wf_world_rearrange:
  assumes wf: "wf_world w" and hp: "heap w' = heap w" and inj: "inj f"
    and src: "\<And>j l. get_list w' j = Some l \<Longrightarrow>
        next_node (head_node l) = None \<and> size_count l = 0
        \<or> (\<exists>l0. get_list w (f j) = Some l0 \<and> next_node (head_node l) = next_node (head_node l0)
              \<and> size_count l = size_count l0)"
  shows "wf_world w'"
proof -
  have "count_inv w'"
    unfolding count_inv_def
  proof (intro allI impI)
    fix j l
    assume g: "get_list w' j = Some l"
    from src [OF g]
    show "\<exists>cs. chain (heap w') (next_node (head_node l)) cs \<and> unat (size_count l) = length cs"
    proof
      assume "next_node (head_node l) = None \<and> size_count l = 0"
      then show ?thesis by (intro exI [of _ "[]"]) simp
    next
      assume "\<exists>l0. get_list w (f j) = Some l0 \<and> next_node (head_node l) = next_node (head_node l0)
          \<and> size_count l = size_count l0"
      then obtain l0 where l0: "get_list w (f j) = Some l0"
          "next_node (head_node l) = next_node (head_node l0)" "size_count l = size_count l0"
        by blast
      from wf_world_chain [OF wf l0(1)] l0(2,3) hp show ?thesis by simp
    qed
  qed
  moreover have "separate w'"
    unfolding separate_def
  proof (intro allI impI, elim conjE)
    fix i j li lj xs ys
    assume ij: "i \<noteq> j" and gi: "get_list w' i = Some li" and gj: "get_list w' j = Some lj"
      and ci: "chain (heap w') (next_node (head_node li)) xs"
      and cj: "chain (heap w') (next_node (head_node lj)) ys"
    show "fst ` set xs \<inter> fst ` set ys = {}"
    proof (cases "next_node (head_node li) = None \<or> next_node (head_node lj) = None")
      case True
      with ci cj show ?thesis by auto
    next
      case False
      with src [OF gi] obtain l1 where l1: "get_list w (f i) = Some l1"
          "next_node (head_node li) = next_node (head_node l1)"
        by auto
      from False src [OF gj] obtain l2 where l2: "get_list w (f j) = Some l2"
          "next_node (head_node lj) = next_node (head_node l2)"
        by auto
      from ij inj have "f i \<noteq> f j" by (auto dest: injD)
      from wf_world_separate [OF wf this l1(1) l2(1)] ci cj l1(2) l2(2) hp
      show ?thesis by simp
    qed
  qed
  ultimately show ?thesis by (simp add: wf_world_def)
qed

lemma default_eq:
  "SingleLinkedList_default d w = (length (objects w), snd (SingleLinkedList_default d w))"
  by (simp add: SingleLinkedList_default_def)

lemma default_effect:
  "heap (snd (SingleLinkedList_default d w)) = heap w"
  "length (objects (snd (SingleLinkedList_default d w))) = Suc (length (objects w))"
  "get_list (snd (SingleLinkedList_default d w)) j =
     (if j = length (objects w)
      then Some \<lparr>head_node = \<lparr>node_value = d, next_node = None\<rparr>, size_count = 0\<rparr>
      else get_list w j)"
  by (auto simp: SingleLinkedList_default_def get_list_def lookup_def nth_append)

lemma wf_default: "wf_world w \<Longrightarrow> wf_world (snd (SingleLinkedList_default d w))"
  by (rule wf_world_rearrange [where f = id])
     (auto simp: default_effect split: if_splits)

lemma release_effect:
  "heap (release_object w t) = heap w"
  "length (objects (release_object w t)) = length (objects w)"
  "get_list (release_object w t) j = (if j = t then None else get_list w j)"
  by (auto simp: release_object_def get_list_def lookup_update lookup_def)

lemma wf_release: "wf_world w \<Longrightarrow> wf_world (release_object w t)"
  by (rule wf_world_rearrange [where f = id])
     (auto simp: release_effect split: if_splits)

lemma swap_lists_effect:
  assumes "get_list w t = Some x" and "get_list w u = Some y"
  shows "\<exists>w'. swap_lists w t u = Inr w' \<and> heap w' = heap w
      \<and> length (objects w') = length (objects w)
      \<and> (\<forall>j. get_list w' j =
            (if j = t then Some (x\<lparr>head_node := (head_node x)\<lparr>next_node := next_node (head_node y)\<rparr>,
                                  size_count := size_count y\<rparr>)
             else if j = u then Some (y\<lparr>head_node := (head_node y)\<lparr>next_node := next_node (head_node x)\<rparr>,
                                       size_count := size_count x\<rparr>)
             else get_list w j))"
proof (cases "t = u")
  case True
  with assms have xy: "y = x" by simp
  have "swap_lists w t t = Inr (put_list w t x)"
    using assms(1) by (simp add: swap_lists_def set_next_node_Sentinel)
  with True xy assms(1) show ?thesis
    by (auto simp: get_put_list get_list_less)
next
  case False
  from assms have lt: "t < length (objects w)" "u < length (objects w)"
    by (auto dest: get_list_less)
  define x1 where "x1 = x\<lparr>head_node := (head_node x)\<lparr>next_node := next_node (head_node y)\<rparr>\<rparr>"
  define y1 where "y1 = y\<lparr>head_node := (head_node y)\<lparr>next_node := next_node (head_node x)\<rparr>\<rparr>"
  define w1 where "w1 = put_list w t x1"
  define w2 where "w2 = put_list w1 u y1"
  define w3 where "w3 = put_list w2 t (x1\<lparr>size_count := size_count y\<rparr>)"
  define w4 where "w4 = put_list w3 u (y1\<lparr>size_count := size_count x\<rparr>)"
  have s1: "set_next_node w (Sentinel t) (next_node (head_node y)) = Inr w1"
    using assms(1) by (simp add: set_next_node_Sentinel w1_def x1_def)
  have "get_list w1 u = Some y" using assms(2) False by (simp add: w1_def get_put_list)
  then have s2: "set_next_node w1 (Sentinel u) (next_node (head_node x)) = Inr w2"
    by (simp add: set_next_node_Sentinel w2_def y1_def)
  have s3: "get_list w2 t = Some x1"
    using False lt by (simp add: w2_def w1_def get_put_list)
  have s4: "get_list w3 u = Some y1"
    using False lt by (simp add: w3_def w2_def w1_def get_put_list)
  have run: "swap_lists w t u = Inr w4"
    by (simp add: swap_lists_def assms s1 s2 s3 w3_def [symmetric] s4 w4_def)
  have "get_list w4 j =
            (if j = t then Some (x1\<lparr>size_count := size_count y\<rparr>)
             else if j = u then Some (y1\<lparr>size_count := size_count x\<rparr>)
             else get_list w j)" for j
    using False lt by (simp add: w4_def w3_def w2_def w1_def get_put_list)
  moreover have "heap w4 = heap w" "length (objects w4) = length (objects w)"
    by (simp_all add: w4_def w3_def w2_def w1_def)
  ultimately show ?thesis using run by (simp add: x1_def y1_def)
qed

lemma wf_swap_lists:
  assumes wf: "wf_world w" and gt: "get_list w t = Some x" and gu: "get_list w u = Some y"
  shows "\<exists>w'. swap_lists w t u = Inr w' \<and> wf_world w'"
proof -
  from swap_lists_effect [OF gt gu] obtain w' where eff: "swap_lists w t u = Inr w'"
      "heap w' = heap w"
      "\<And>j. get_list w' j =
            (if j = t then Some (x\<lparr>head_node := (head_node x)\<lparr>next_node := next_node (head_node y)\<rparr>,
                                  size_count := size_count y\<rparr>)
             else if j = u then Some (y\<lparr>head_node := (head_node y)\<lparr>next_node := next_node (head_node x)\<rparr>,
                                       size_count := size_count x\<rparr>)
             else get_list w j)"
    by blast
  define f where "f = (\<lambda>j. if j = t then u else if j = u then t else j)"
  have "inj f" by (auto simp: inj_def f_def split: if_splits)
  with wf eff(2) have "wf_world w'"
  proof (rule wf_world_rearrange)
    fix j l
    assume g: "get_list w' j = Some l"
    have "\<exists>l0. get_list w (f j) = Some l0 \<and> next_node (head_node l) = next_node (head_node l0)
              \<and> size_count l = size_count l0"
    proof (cases "j = t")
      case True
      with g eff(3) [of j] gu show ?thesis
        by (intro exI [of _ y]) (auto simp: f_def)
    next
      case jt: False
      show ?thesis
      proof (cases "j = u")
        case True
        with jt g eff(3) [of j] gt show ?thesis
          by (intro exI [of _ x]) (auto simp: f_def)
      next
        case False
        with jt g eff(3) [of j] show ?thesis
          by (intro exI [of _ l]) (simp add: f_def)
      qed
    qed
    then show "next_node (head_node l) = None \<and> size_count l = 0
        \<or> (\<exists>l0. get_list w (f j) = Some l0 \<and> next_node (head_node l) = next_node (head_node l0)
              \<and> size_count l = size_count l0)"
      by (rule disjI2)
  qed
  with eff(1) show ?thesis by blast
qed

lemma destroy_effect:
  assumes "get_list w t = Some lt" and "chain (heap w) (next_node (head_node lt)) cs"
  shows "\<exists>w'. destroy w t = Inr w'
        \<and> (\<forall>j. get_list w' j = (if j = t then None else get_list w j))
        \<and> length (objects w') = length (objects w)
        \<and> length (heap w') = length (heap w)
        \<and> heap_frame (fst ` set cs) (heap w) (heap w')"
proof -
  from Clear_effect [OF assms] obtain w1 where 1: "Clear w t = Inr w1"
      "others_same t w w1" "length (heap w1) = length (heap w)"
      "heap_frame (fst ` set cs) (heap w) (heap w1)"
    by blast
  have "destroy w t = Inr (release_object w1 t)" by (simp add: destroy_def 1(1))
  with 1 show ?thesis by (auto simp: release_effect others_same_def)
qed

lemma wf_destroy:
  assumes wf: "wf_world w" and g: "get_list w t = Some l"
  shows "\<exists>w'. destroy w t = Inr w' \<and> wf_world w'
           \<and> (\<forall>j. get_list w' j = (if j = t then None else get_list w j))"
proof -
  from wf_Clear [OF wf g] obtain w1 where 1: "Clear w t = Inr w1" "wf_world w1"
      "others_same t w w1"
    by blast
  have "destroy w t = Inr (release_object w1 t)" by (simp add: destroy_def 1(1))
  with 1 show ?thesis by (auto simp: release_effect others_same_def wf_release)
qed

section \<open>The loops of FillingListInSeries\<close>

lemma iter_inc_load:
  "load w p = Some n \<Longrightarrow> iter_inc b w (BasicIterator (Some p)) = Inr (BasicIterator (next_node n))"
  by (simp add: iter_inc_def)

text \<open>
  One round at the end of the temporary list \<open>t\<close>, whose cells \<open>ts\<close> are all at or above
  the address \<open>n0\<close>: the new node is appended, and the iterator moves onto it.
\<close>

lemma tail_insert_step:
  assumes g: "get_list w t = Some lt"
    and ct: "chain (heap w) (next_node (head_node lt)) ts"
    and ge: "\<forall>c\<in>set ts. n0 \<le> fst c"
    and sz: "unat (size_count lt) = length ts"
    and room: "length ts < 2 ^ 64 - 1"
    and e: "\<not> E (length (heap w)) v"
  shows "\<exists>w1 lt1. InsertAfter b E w t (BasicIterator (Some (pos_after t ts))) v =
             Inr (BasicIterator (Some (Heap (length (heap w)))), w1)
           \<and> iter_inc b w1 (BasicIterator (Some (pos_after t ts))) =
             Inr (BasicIterator (Some (pos_after t (ts @ [(length (heap w), v)]))))
           \<and> get_list w1 t = Some lt1
           \<and> chain (heap w1) (next_node (head_node lt1)) (ts @ [(length (heap w), v)])
           \<and> unat (size_count lt1) = Suc (length ts)
           \<and> others_same t w w1
           \<and> heap_frame {n0..} (heap w) (heap w1)
           \<and> length (heap w1) = Suc (length (heap w))"
proof -
  from ct have c: "chain (heap w) (next_node (head_node lt)) (ts @ [])" by simp
  from InsertAfter_effect [where E = E and v = v and b = b, OF g c e] obtain w1 lt1 where eff:
      "InsertAfter b E w t (BasicIterator (Some (pos_after t ts))) v =
         Inr (BasicIterator (Some (Heap (length (heap w)))), w1)"
      "get_list w1 t = Some lt1"
      "chain (heap w1) (next_node (head_node lt1)) (ts @ [(length (heap w), v)])"
      "size_count lt1 = size_count lt + 1" "others_same t w w1"
      "length (heap w1) = Suc (length (heap w))"
      "heap_frame (if ts = [] then {} else {fst (last ts)}) (heap w) (heap w1)"
    by blast
  from load_pos_after [OF eff(2,3)] obtain n where n: "load w1 (pos_after t ts) = Some n"
      "chain (heap w1) (next_node n) [(length (heap w), v)]"
    by blast
  from n(2) have "next_node n = Some (Heap (length (heap w)))" by (auto simp: chain_Cons)
  with iter_inc_load [OF n(1), of b]
  have r2: "iter_inc b w1 (BasicIterator (Some (pos_after t ts))) =
      Inr (BasicIterator (Some (pos_after t (ts @ [(length (heap w), v)]))))"
    by (simp add: pos_after_def)
  have r5: "unat (size_count lt1) = Suc (length ts)"
    using eff(4) sz room by (simp add: unat_inc)
  from ge have "(if ts = [] then {} else {fst (last ts)}) \<subseteq> {n0..}" by auto
  with eff(7) have r7: "heap_frame {n0..} (heap w) (heap w1)" by (rule heap_frame_mono)
  from eff(1) r2 eff(2,3) r5 eff(5) r7 eff(6) show ?thesis by blast
qed

lemma grown_refl:
  assumes "get_list w t = Some lt" and "chain (heap w) (next_node (head_node lt)) ts"
    and "unat (size_count lt) = length ts"
  shows "grown n0 t w ts [] full w"
  unfolding grown_def using assms
  by (intro exI [of _ lt] exI [of _ "[]"]) (simp add: others_same_refl heap_frame_refl)

lemma grown_thrown:
  assumes "get_list w t = Some lt" and "chain (heap w) (next_node (head_node lt)) ts"
    and "unat (size_count lt) = length ts"
  shows "grown n0 t w ts vals False w"
  unfolding grown_def using assms
  by (intro exI [of _ lt] exI [of _ "[]"]) (simp add: others_same_refl heap_frame_refl)

lemma grown_step:
  assumes os: "others_same t w w1" and fr: "heap_frame {n0..} (heap w) (heap w1)"
    and len: "length (heap w1) = Suc (length (heap w))"
    and gr: "grown n0 t w1 (ts @ [(length (heap w), v)]) vals full w'"
  shows "grown n0 t w ts (v # vals) full w'"
proof -
  from gr obtain lt' ts' where 1: "get_list w' t = Some lt'"
      "chain (heap w') (next_node (head_node lt')) ((ts @ [(length (heap w), v)]) @ ts')"
      "unat (size_count lt') = length ((ts @ [(length (heap w), v)]) @ ts')"
      "\<forall>c\<in>set ts'. length (heap w1) \<le> fst c"
      "if full then map snd ts' = vals else True"
      "others_same t w1 w'" "heap_frame {n0..} (heap w1) (heap w')"
    unfolding grown_def by blast
  let ?ts = "(length (heap w), v) # ts'"
  have a: "chain (heap w') (next_node (head_node lt')) (ts @ ?ts)" using 1(2) by simp
  have b: "unat (size_count lt') = length (ts @ ?ts)" using 1(3) by simp
  have c: "\<forall>c\<in>set ?ts. length (heap w) \<le> fst c" using 1(4) len by auto
  have d: "if full then map snd ?ts = v # vals else True" using 1(5) by simp
  have e: "others_same t w w'" using os 1(6) by (rule others_same_trans)
  have f: "heap_frame {n0..} (heap w) (heap w')" using fr 1(7) by (rule heap_frame_trans) simp
  from 1(1) a b c d e f show ?thesis unfolding grown_def by blast
qed

lemma filled_step:
  assumes "others_same t w w1" and "heap_frame {n0..} (heap w) (heap w1)"
    and "length (heap w1) = Suc (length (heap w))"
    and "filled E n0 t w1 (ts @ [(length (heap w), v)]) vals r"
  shows "filled E n0 t w ts (v # vals) r"
  using assms(4) grown_step [OF assms(1-3)]
  by (auto simp: filled_def split: sum.splits error.splits)

lemma fill_values_effect:
  assumes "get_list w t = Some lt"
    and "chain (heap w) (next_node (head_node lt)) ts"
    and "\<forall>c\<in>set ts. n0 \<le> fst c"
    and "unat (size_count lt) = length ts"
    and "length ts + length vals < 2 ^ 64"
    and "n0 \<le> length (heap w)"
  shows "filled E n0 t w ts vals (fill_values b E w t (BasicIterator (Some (pos_after t ts))) vals)"
  using assms
proof (induction vals arbitrary: w lt ts)
  case Nil
  then show ?case by (simp add: filled_def grown_refl)
next
  case (Cons v vals)
  note g = Cons.prems(1) and ct = Cons.prems(2) and ge = Cons.prems(3) and sz = Cons.prems(4)
  show ?case
  proof (cases "E (length (heap w)) v")
    case True
    from ct have "chain (heap w) (next_node (head_node lt)) (ts @ [])" by simp
    from load_pos_after [OF g this] obtain n where "load w (pos_after t ts) = Some n" by blast
    then have "InsertAfter b E w t (BasicIterator (Some (pos_after t ts))) v = Inl (Thrown w)"
      using True by (rule InsertAfter_throws)
    then show ?thesis
      using grown_thrown [OF g ct sz] True by (auto simp: filled_def)
  next
    case False
    from Cons.prems(5) have room: "length ts < 2 ^ 64 - 1" by simp
    from tail_insert_step [where E = E and v = v and b = b, OF g ct ge sz room False]
    obtain w1 lt1 where step:
        "InsertAfter b E w t (BasicIterator (Some (pos_after t ts))) v =
           Inr (BasicIterator (Some (Heap (length (heap w)))), w1)"
        "iter_inc b w1 (BasicIterator (Some (pos_after t ts))) =
           Inr (BasicIterator (Some (pos_after t (ts @ [(length (heap w), v)]))))"
        "get_list w1 t = Some lt1"
        "chain (heap w1) (next_node (head_node lt1)) (ts @ [(length (heap w), v)])"
        "unat (size_count lt1) = Suc (length ts)"
        "others_same t w w1" "heap_frame {n0..} (heap w) (heap w1)"
        "length (heap w1) = Suc (length (heap w))"
      by blast
    from ge Cons.prems(6) have ge1: "\<forall>c\<in>set (ts @ [(length (heap w), v)]). n0 \<le> fst c"
      by auto
    from Cons.prems(6) step(8) have n1: "n0 \<le> length (heap w1)" by simp
    have sz1: "unat (size_count lt1) = length (ts @ [(length (heap w), v)])"
      using step(5) by simp
    have b1: "length (ts @ [(length (heap w), v)]) + length vals < 2 ^ 64"
      using Cons.prems(5) by simp
    have "filled E n0 t w1 (ts @ [(length (heap w), v)]) vals
        (fill_values b E w1 t (BasicIterator (Some (pos_after t (ts @ [(length (heap w), v)])))) vals)"
      by (rule Cons.IH [OF step(3,4) ge1 sz1 b1 n1])
    then have "filled E n0 t w ts (v # vals)
        (fill_values b E w1 t (BasicIterator (Some (pos_after t (ts @ [(length (heap w), v)])))) vals)"
      by (rule filled_step [OF step(6,7,8)])
    then show ?thesis by (simp add: step(1,2))
  qed
qed

lemma fill_nodes_effect:
  assumes "get_list w t = Some lt"
    and "chain (heap w) (next_node (head_node lt)) ts"
    and "\<forall>c\<in>set ts. n0 \<le> fst c"
    and "unat (size_count lt) = length ts"
    and "length ts + length rest < 2 ^ 64"
    and "n0 \<le> length (heap w)"
    and "chain (heap w) p rest"
    and "\<forall>c\<in>set rest. fst c < n0"
  shows "\<exists>r. fill_nodes b E w t (BasicIterator (Some (pos_after t ts))) (BasicIterator p)
              (BasicIterator None) = Some r
           \<and> filled E n0 t w ts (map snd rest) r"
  using assms
proof (induction rest arbitrary: w lt ts p)
  case Nil
  then have "fill_nodes b E w t (BasicIterator (Some (pos_after t ts))) (BasicIterator p)
      (BasicIterator None) = Some (Inr w)"
    by (subst fill_nodes.simps) simp
  with Nil show ?case by (simp add: filled_def grown_refl)
next
  case (Cons x rest)
  note g = Cons.prems(1) and ct = Cons.prems(2) and ge = Cons.prems(3) and sz = Cons.prems(4)
  from Cons.prems(7) obtain nx where nx: "lookup (heap w) (fst x) = Some nx"
      "p = Some (Heap (fst x))" "node_value nx = snd x"
    by (auto simp: chain_Cons)
  have deref: "iter_deref b w (BasicIterator p) = Inr (snd x)"
    using iter_deref_Heap [OF nx(1), of b] nx(2,3) by simp
  show ?case
  proof (cases "E (length (heap w)) (snd x)")
    case True
    from ct have "chain (heap w) (next_node (head_node lt)) (ts @ [])" by simp
    from load_pos_after [OF g this] obtain n where "load w (pos_after t ts) = Some n" by blast
    then have "InsertAfter b E w t (BasicIterator (Some (pos_after t ts))) (snd x) = Inl (Thrown w)"
      using True by (rule InsertAfter_throws)
    then have "fill_nodes b E w t (BasicIterator (Some (pos_after t ts))) (BasicIterator p)
        (BasicIterator None) = Some (Inl (Thrown w))"
      using nx(2) deref by (subst fill_nodes.simps) simp
    then show ?thesis
      using grown_thrown [OF g ct sz] True by (auto simp: filled_def)
  next
    case False
    from Cons.prems(5) have room: "length ts < 2 ^ 64 - 1" by simp
    from tail_insert_step [where E = E and v = "snd x" and b = b, OF g ct ge sz room False]
    obtain w1 lt1 where step:
        "InsertAfter b E w t (BasicIterator (Some (pos_after t ts))) (snd x) =
           Inr (BasicIterator (Some (Heap (length (heap w)))), w1)"
        "iter_inc b w1 (BasicIterator (Some (pos_after t ts))) =
           Inr (BasicIterator (Some (pos_after t (ts @ [(length (heap w), snd x)]))))"
        "get_list w1 t = Some lt1"
        "chain (heap w1) (next_node (head_node lt1)) (ts @ [(length (heap w), snd x)])"
        "unat (size_count lt1) = Suc (length ts)"
        "others_same t w w1" "heap_frame {n0..} (heap w) (heap w1)"
        "length (heap w1) = Suc (length (heap w))"
      by blast
    from Cons.prems(8) have "fst ` set (x # rest) \<inter> {n0..} = {}" by fastforce
    with Cons.prems(7) step(7) have "chain (heap w1) p (x # rest)" by (rule chain_frame)
    then obtain n1 where n1: "lookup (heap w1) (fst x) = Some n1"
        "chain (heap w1) (next_node n1) rest"
      by (auto simp: chain_Cons)
    have inc: "iter_inc b w1 (BasicIterator p) = Inr (BasicIterator (next_node n1))"
      using iter_inc_Heap [OF n1(1), of b] nx(2) by simp
    from ge Cons.prems(6) have ge1: "\<forall>c\<in>set (ts @ [(length (heap w), snd x)]). n0 \<le> fst c"
      by auto
    from Cons.prems(6) step(8) have b0: "n0 \<le> length (heap w1)" by simp
    have sz1: "unat (size_count lt1) = length (ts @ [(length (heap w), snd x)])"
      using step(5) by simp
    have b1: "length (ts @ [(length (heap w), snd x)]) + length rest < 2 ^ 64"
      using Cons.prems(5) by simp
    from Cons.prems(8) have lt1: "\<forall>c\<in>set rest. fst c < n0" by simp
    from Cons.IH [OF step(3,4) ge1 sz1 b1 b0 n1(2) lt1] obtain r where r:
        "fill_nodes b E w1 t (BasicIterator (Some (pos_after t (ts @ [(length (heap w), snd x)]))))
           (BasicIterator (next_node n1)) (BasicIterator None) = Some r"
        "filled E n0 t w1 (ts @ [(length (heap w), snd x)]) (map snd rest) r"
      by blast
    from r(2) have "filled E n0 t w ts (snd x # map snd rest) r"
      by (rule filled_step [OF step(6,7,8)])
    moreover have "fill_nodes b E w t (BasicIterator (Some (pos_after t ts))) (BasicIterator p)
        (BasicIterator None) = Some r"
      using nx(2) deref step(1,2) inc r(1) by (subst fill_nodes.simps) simp
    ultimately show ?thesis by simp
  qed
qed

lemma heap_frame_above: "heap_frame {length h..} h h' \<Longrightarrow> heap_frame {} h h'"
  by (simp add: heap_frame_def)

lemma fst_default [simp]: "fst (SingleLinkedList_default d w) = length (objects w)"
  by (simp add: SingleLinkedList_default_def)

lemma wf_world_grown:
  assumes wf: "wf_world w0" and g: "get_list w0 t = Some e" and e: "next_node (head_node e) = None"
    and gr: "grown (length (heap w0)) t w0 [] vals full w1"
  shows "wf_world w1"
proof -
  from gr obtain lt' ts' where 1: "get_list w1 t = Some lt'"
      "chain (heap w1) (next_node (head_node lt')) ts'" "unat (size_count lt') = length ts'"
      "\<forall>c\<in>set ts'. length (heap w0) \<le> fst c" "others_same t w0 w1"
      "heap_frame {length (heap w0)..} (heap w0) (heap w1)"
    unfolding grown_def by auto
  from 1(6) have fr: "heap_frame {} (heap w0) (heap w1)" by (rule heap_frame_above)
  from e have c0: "chain (heap w0) (next_node (head_node e)) []" by simp
  from 1(4) have sub: "fst ` set ts' \<subseteq> fst ` set [] \<union> {length (heap w0)..}" by auto
  from wf_world_frame [OF wf 1(5) fr g c0 _ 1(1,2,3) sub] show ?thesis by simp
qed

lemma after_fill_effect:
  assumes this0: "get_list w this = Some l0" "next_node (head_node l0) = None" "size_count l0 = 0"
    and r: "filled E (length (heap w)) (length (objects w)) (snd (SingleLinkedList_default d w)) [] vals r"
  shows "built E this w vals (after_fill r this (length (objects w)))"
proof -
  define temp where "temp = length (objects w)"
  define w0 where "w0 = snd (SingleLinkedList_default d w)"
  define e :: "'a SingleLinkedList"
    where "e = \<lparr>head_node = \<lparr>node_value = d, next_node = None\<rparr>, size_count = 0\<rparr>"
  from this0(1) have ne: "this \<noteq> temp" "this < length (objects w)"
    by (auto simp: temp_def dest: get_list_less)
  have g0: "get_list w0 j = (if j = temp then Some e else get_list w j)" for j
    by (simp add: w0_def temp_def e_def default_effect)
  have h0: "heap w0 = heap w" by (simp add: w0_def default_effect)
  have e0: "next_node (head_node e) = None" by (simp add: e_def)
  have gt0: "get_list w0 temp = Some e" by (simp add: g0)
  have wf0: "wf_world w \<Longrightarrow> wf_world w0" unfolding w0_def by (rule wf_default)
  show ?thesis
  proof (cases r)
    case (Inr w1)
    with r have gr: "grown (length (heap w0)) temp w0 [] vals True w1"
      by (simp add: filled_def temp_def w0_def default_effect)
    then obtain lt' ts' where 1: "get_list w1 temp = Some lt'"
        "chain (heap w1) (next_node (head_node lt')) ts'" "unat (size_count lt') = length ts'"
        "map snd ts' = vals" "others_same temp w0 w1"
        "heap_frame {length (heap w0)..} (heap w0) (heap w1)"
      unfolding grown_def by auto
    from 1(5) ne this0(1) have g1: "get_list w1 this = Some l0"
      by (simp add: others_same_def g0)
    from swap_lists_effect [OF g1 1(1)] obtain w2 where 2: "swap_lists w1 this temp = Inr w2"
        "heap w2 = heap w1"
        "\<And>j. get_list w2 j =
            (if j = this then Some (l0\<lparr>head_node := (head_node l0)\<lparr>next_node := next_node (head_node lt')\<rparr>,
                                  size_count := size_count lt'\<rparr>)
             else if j = temp then Some (lt'\<lparr>head_node := (head_node lt')\<lparr>next_node := next_node (head_node l0)\<rparr>,
                                       size_count := size_count l0\<rparr>)
             else get_list w1 j)"
      by blast
    define t2 where "t2 = lt'\<lparr>head_node := (head_node lt')\<lparr>next_node := next_node (head_node l0)\<rparr>,
                                       size_count := size_count l0\<rparr>"
    have gt2: "get_list w2 temp = Some t2" using 2(3) [of temp] ne by (simp add: t2_def)
    have ct2: "chain (heap w2) (next_node (head_node t2)) []" using this0(2) by (simp add: t2_def)
    from destroy_effect [OF gt2 ct2] obtain w3 where 3: "destroy w2 temp = Inr w3"
        "\<And>j. get_list w3 j = (if j = temp then None else get_list w2 j)"
        "heap_frame {} (heap w2) (heap w3)"
      by auto
    have run: "after_fill r this temp = Inr w3"
      by (simp add: after_fill_def Inr 2(1) 3(1))
    from 1(2) 2(2) have "chain (heap w2) (next_node (head_node lt')) ts'" by simp
    then have "chain (heap w3) (next_node (head_node lt')) ts'"
      using 3(3) by (rule chain_frame) simp
    with 1(3,4) ne have h: "holds w3 this vals"
      by (auto simp: holds_def 3(2) 2(3))
    have o: "\<forall>j. j \<noteq> this \<and> j < length (objects w) \<longrightarrow> get_list w3 j = get_list w j"
      using 1(5) by (auto simp: 3(2) 2(3) others_same_def g0 temp_def)
    have wf: "wf_world w3" if "wf_world w"
    proof -
      from that have "wf_world w0" by (rule wf0)
      from wf_world_grown [OF this gt0 e0 gr] have wf1: "wf_world w1" .
      from wf_swap_lists [OF wf1 g1 1(1)] 2(1) have wf2: "wf_world w2" by auto
      from wf_destroy [OF wf2 gt2] 3(1) show ?thesis by auto
    qed
    from 1(6) have "heap_frame {} (heap w) (heap w2)"
      by (simp add: heap_frame_above h0 [symmetric] 2(2))
    then have f: "heap_frame {} (heap w) (heap w3)"
      using 3(3) by (rule heap_frame_trans) simp
    from h o f wf show ?thesis
      by (simp add: built_def run [unfolded temp_def])
  next
    case (Inl err)
    with r obtain wx where err: "err = Thrown wx" and ex: "\<exists>a v. E a v"
        and gr: "grown (length (heap w0)) temp w0 [] vals False wx"
      by (cases err) (auto simp: filled_def temp_def w0_def default_effect)
    then obtain lt' ts' where 1: "get_list wx temp = Some lt'"
        "chain (heap wx) (next_node (head_node lt')) ts'"
      unfolding grown_def by auto
    from destroy_effect [OF 1] obtain wy where 3: "destroy wx temp = Inr wy"
      by blast
    have run: "after_fill r this temp = Inl (Thrown wy)"
      by (simp add: after_fill_def Inl err 3(1))
    have wf: "wf_world wy" if "wf_world w"
    proof -
      from that have "wf_world w0" by (rule wf0)
      from wf_world_grown [OF this gt0 e0 gr] have wf1: "wf_world wx" .
      from wf_destroy [OF wf1 1(1)] 3(1) show ?thesis by auto
    qed
    from ex wf show ?thesis
      by (simp add: built_def run [unfolded temp_def])
  qed
qed

lemma FillingListInSeries_values_effect:
  assumes this0: "get_list w this = Some l0" "next_node (head_node l0) = None" "size_count l0 = 0"
    and len: "length vals < 2 ^ 64"
  shows "built E this w vals (FillingListInSeries_values b E d w this vals)"
proof -
  define temp where "temp = length (objects w)"
  define w0 where "w0 = snd (SingleLinkedList_default d w)"
  have a: "assert b (IsEmpty w this) = Inr ()"
    using this0 by (simp add: IsEmpty_get)
  have g0: "get_list w0 temp =
      Some \<lparr>head_node = \<lparr>node_value = d, next_node = None\<rparr>, size_count = 0\<rparr>"
    by (simp add: w0_def temp_def default_effect)
  have h0: "heap w0 = heap w" by (simp add: w0_def default_effect)
  have "filled E (length (heap w0)) temp w0 [] vals
      (fill_values b E w0 temp (BasicIterator (Some (pos_after temp ([] :: (addr \<times> 'a) list)))) vals)"
    by (rule fill_values_effect [OF g0]) (use len in simp_all)
  then have "filled E (length (heap w)) (length (objects w)) (snd (SingleLinkedList_default d w)) [] vals
      (fill_values b E w0 temp (before_begin temp) vals)"
    by (simp add: temp_def w0_def default_effect pos_after_def before_begin_def)
  from after_fill_effect [OF this0 this] show ?thesis
    by (simp add: FillingListInSeries_values_def a case_prod_beta w0_def temp_def)
qed

lemma FillingListInSeries_list_effect:
  assumes this0: "get_list w this = Some l0" "next_node (head_node l0) = None" "size_count l0 = 0"
    and src: "get_list w other = Some lo" "chain (heap w) (next_node (head_node lo)) cs"
    and len: "length cs < 2 ^ 64"
  shows "\<exists>r. FillingListInSeries_list b E d w this other = Some r \<and> built E this w (map snd cs) r"
proof -
  define temp where "temp = length (objects w)"
  define w0 where "w0 = snd (SingleLinkedList_default d w)"
  have a: "assert b (IsEmpty w this) = Inr ()"
    using this0 by (simp add: IsEmpty_get)
  have g0: "get_list w0 temp =
      Some \<lparr>head_node = \<lparr>node_value = d, next_node = None\<rparr>, size_count = 0\<rparr>"
    by (simp add: w0_def temp_def default_effect)
  have h0: "heap w0 = heap w" by (simp add: w0_def default_effect)
  from src(1) have "other \<noteq> length (objects w)" by (auto dest: get_list_less)
  with src(1) have go: "get_list w0 other = Some lo" by (simp add: w0_def default_effect)
  then have bg: "begin_it w0 other = Inr (BasicIterator (next_node (head_node lo)))"
    by (simp add: begin_it_def)
  from src(2) have c0: "chain (heap w0) (next_node (head_node lo)) cs" by (simp add: h0)
  from c0 have below: "\<forall>c\<in>set cs. fst c < length (heap w0)" by (auto dest: chain_bound)
  have "\<exists>r. fill_nodes b E w0 temp (BasicIterator (Some (pos_after temp ([] :: (addr \<times> 'a) list))))
          (BasicIterator (next_node (head_node lo))) (BasicIterator None) = Some r
        \<and> filled E (length (heap w0)) temp w0 [] (map snd cs) r"
    by (rule fill_nodes_effect [OF g0 _ _ _ _ _ c0 below]) (use len in simp_all)
  then obtain r where r: "fill_nodes b E w0 temp (before_begin temp)
          (BasicIterator (next_node (head_node lo))) (end_it other) = Some r"
      "filled E (length (heap w)) (length (objects w)) (snd (SingleLinkedList_default d w)) []
         (map snd cs) r"
    by (auto simp: temp_def w0_def default_effect pos_after_def before_begin_def end_it_def)
  have "FillingListInSeries_list b E d w this other = Some (after_fill r this (length (objects w)))"
    using r(1) bg by (simp add: FillingListInSeries_list_def a case_prod_beta w0_def temp_def)
  with after_fill_effect [OF this0 r(2)] show ?thesis by simp
qed

lemma constructed_effect:
  assumes "built E (length (objects w)) (snd (SingleLinkedList_default d w)) vals r"
  shows "created E w vals (constructed (length (objects w)) r)"
proof (cases r)
  case (Inr w1)
  with assms have 1: "holds w1 (length (objects w)) vals"
      "\<And>j. j < length (objects w) \<Longrightarrow> get_list w1 j = get_list w j"
      "wf_world (snd (SingleLinkedList_default d w)) \<Longrightarrow> wf_world w1"
      "heap_frame {} (heap w) (heap w1)"
    by (auto simp: built_def default_effect)
  from 1(3) have "wf_world w \<Longrightarrow> wf_world w1" by (simp add: wf_default)
  with 1(1,2,4) Inr show ?thesis by (simp add: created_def constructed_def)
next
  case (Inl err)
  with assms obtain wx where err: "err = Thrown wx" and ex: "\<exists>a v. E a v"
      and wf: "wf_world (snd (SingleLinkedList_default d w)) \<Longrightarrow> wf_world wx"
    by (cases err) (auto simp: built_def)
  from wf have "wf_world w \<Longrightarrow> wf_world (release_object wx (length (objects w)))"
    by (simp add: wf_default wf_release)
  with ex Inl err show ?thesis by (simp add: created_def constructed_def)
qed

lemma SingleLinkedList_values_effect:
  assumes "length vals < 2 ^ 64"
  shows "created E w vals (SingleLinkedList_values b E d w vals)"
proof -
  have "built E (length (objects w)) (snd (SingleLinkedList_default d w)) vals
      (FillingListInSeries_values b E d (snd (SingleLinkedList_default d w)) (length (objects w)) vals)"
  proof (rule FillingListInSeries_values_effect [OF _ _ _ assms])
    show "get_list (snd (SingleLinkedList_default d w)) (length (objects w)) =
        Some \<lparr>head_node = \<lparr>node_value = d, next_node = None\<rparr>, size_count = 0\<rparr>"
      by (simp add: default_effect)
  qed simp_all
  from constructed_effect [OF this] show ?thesis
    by (simp add: SingleLinkedList_values_def case_prod_beta)
qed

lemma SingleLinkedList_copy_effect:
  assumes "get_list w other = Some lo" and "chain (heap w) (next_node (head_node lo)) cs"
    and "length cs < 2 ^ 64"
  shows "\<exists>r. SingleLinkedList_copy b E d w other = Some r \<and> created E w (map snd cs) r"
proof -
  let ?w0 = "snd (SingleLinkedList_default d w)"
  from assms(1) have "other \<noteq> length (objects w)" by (auto dest: get_list_less)
  with assms(1) have go: "get_list ?w0 other = Some lo" by (simp add: default_effect)
  from assms(2) have co: "chain (heap ?w0) (next_node (head_node lo)) cs"
    by (simp add: default_effect)
  have "\<exists>r. FillingListInSeries_list b E d ?w0 (length (objects w)) other = Some r
      \<and> built E (length (objects w)) ?w0 (map snd cs) r"
  proof (rule FillingListInSeries_list_effect [OF _ _ _ go co assms(3)])
    show "get_list ?w0 (length (objects w)) =
        Some \<lparr>head_node = \<lparr>node_value = d, next_node = None\<rparr>, size_count = 0\<rparr>"
      by (simp add: default_effect)
  qed simp_all
  then obtain r where r: "FillingListInSeries_list b E d ?w0 (length (objects w)) other = Some r"
      "built E (length (objects w)) ?w0 (map snd cs) r"
    by blast
  from constructed_effect [OF r(2)] r(1) show ?thesis
    by (simp add: SingleLinkedList_copy_def case_prod_beta)
qed

lemma holds_chain:
  "holds w t xs \<Longrightarrow> \<exists>l cs. get_list w t = Some l \<and> chain (heap w) (next_node (head_node l)) cs
     \<and> map snd cs = xs \<and> unat (size_count l) = length xs"
  by (auto simp: holds_def split: option.splits)






lemma wf_empty_world: "wf_world empty_world"
  by (simp add: wf_world_def count_inv_def separate_def empty_world_def get_list_def lookup_def)




lemma assign_effect:
  assumes wf: "wf_world w" and gt: "get_list w this = Some lt" and gr: "get_list w rhs = Some lr"
  shows "\<exists>r. assign b E d w this rhs = Some r \<and> well_ended snd r"
proof (cases "this = rhs")
  case True
  with wf show ?thesis by (simp add: assign_def)
next
  case False
  from wf_world_chain [OF wf gr] obtain cs where cs: "chain (heap w) (next_node (head_node lr)) cs"
      "unat (size_count lr) = length cs"
    by blast
  have "unat (size_count lr) < 2 ^ 64" using unsigned_less [of "size_count lr"] by simp
  with cs(2) have len: "length cs < 2 ^ 64" by simp
  from SingleLinkedList_copy_effect [OF gr cs(1) len, of b E d]
  obtain r0 where r0: "SingleLinkedList_copy b E d w rhs = Some r0" "created E w (map snd cs) r0"
    by blast
  show ?thesis
  proof (cases r0)
    case (Inr x)
    obtain tmp w1 where x: "x = (tmp, w1)" by (cases x)
    with Inr r0(2) wf have 1: "tmp = length (objects w)" "holds w1 tmp (map snd cs)"
        "\<And>j. j < length (objects w) \<Longrightarrow> get_list w1 j = get_list w j" "wf_world w1"
      by (auto simp: created_def)
    from gt have "this < length (objects w)" by (rule get_list_less)
    with 1(3) gt have g1: "get_list w1 this = Some lt" by simp
    from holds_chain [OF 1(2)] obtain l1 where gtmp: "get_list w1 tmp = Some l1" by blast
    from wf_swap_lists [OF 1(4) g1 gtmp] obtain w2 where 2: "swap_lists w1 this tmp = Inr w2"
        "wf_world w2"
      by blast
    from swap_lists_effect [OF g1 gtmp] obtain w2' where e: "swap_lists w1 this tmp = Inr w2'"
        "\<And>j. get_list w2' j =
            (if j = this then Some (lt\<lparr>head_node := (head_node lt)\<lparr>next_node := next_node (head_node l1)\<rparr>,
                                  size_count := size_count l1\<rparr>)
             else if j = tmp then Some (l1\<lparr>head_node := (head_node l1)\<lparr>next_node := next_node (head_node lt)\<rparr>,
                                       size_count := size_count lt\<rparr>)
             else get_list w1 j)"
      by blast
    from e(1) 2(1) have "w2' = w2" by simp
    with e(2) [of tmp] have "get_list w2 tmp \<noteq> None" by auto
    then obtain l2 where g2: "get_list w2 tmp = Some l2" by auto
    from wf_destroy [OF 2(2) g2] obtain w3 where 3: "destroy w2 tmp = Inr w3" "wf_world w3"
      by blast
    have "assign b E d w this rhs = Some (Inr (this, w3))"
      using False by (simp add: assign_def r0(1) Inr x 2(1) 3(1))
    with 3(2) show ?thesis by simp
  next
    case (Inl err)
    with r0(2) wf obtain wx where err: "err = Thrown wx" "wf_world wx"
      by (cases err) (auto simp: created_def)
    have "assign b E d w this rhs = Some (Inl (Thrown wx))"
      using False by (simp add: assign_def r0(1) Inl err(1))
    with err(2) show ?thesis by simp
  qed
qed

lemma copy_well_ended:
  assumes wf: "wf_world w" and g: "get_list w t = Some l"
  shows "\<exists>r. SingleLinkedList_copy b E d w t = Some r \<and> well_ended snd r"
proof -
  from wf_world_chain [OF wf g] obtain cs where cs: "chain (heap w) (next_node (head_node l)) cs"
      "unat (size_count l) = length cs"
    by blast
  have "unat (size_count l) < 2 ^ 64" using unsigned_less [of "size_count l"] by simp
  with cs(2) have len: "length cs < 2 ^ 64" by simp
  from SingleLinkedList_copy_effect [OF g cs(1) len, of b E d]
  obtain r where r: "SingleLinkedList_copy b E d w t = Some r" "created E w (map snd cs) r"
    by blast
  have "well_ended snd r"
  proof (cases r)
    case (Inr x)
    with r(2) wf show ?thesis by (cases x) (simp add: created_def)
  next
    case (Inl err)
    with r(2) wf show ?thesis by (cases err) (auto simp: created_def)
  qed
  with r(1) show ?thesis by blast
qed

text \<open>
  Claim C5: in a well-formed memory the count stored in a list is the number of nodes
  on the chain from its sentinel to \<^verbatim>\<open>nullptr\<close>, and every operation run within its
  precondition ends, by a return or by an exception, in a well-formed memory: the
  invariant \<open>count_inv\<close>, with the separation of the lists it needs. The preconditions
  are those of the source: a position of this list for \<^verbatim>\<open>InsertAfter\<close> and
  \<^verbatim>\<open>EraseAfter\<close>, a successor for \<^verbatim>\<open>EraseAfter\<close>, a non-empty list for \<^verbatim>\<open>PopFront\<close>, and
  room in the 64-bit count for one more element.
\<close>

theorem count_invariant_preserved:
  "wf_world w \<and> get_list w t = Some l \<longrightarrow>
     (\<exists>n cs. GetSize w t = Inr n \<and> chain (heap w) (next_node (head_node l)) cs
         \<and> unat n = length cs)
   \<and> (unat (size_count l) < 2 ^ 64 - 1 \<longrightarrow> well_ended snd (PushFront E w t v))
   \<and> (unat (size_count l) < 2 ^ 64 - 1 \<and> valid_pos w t pos \<longrightarrow>
        well_ended snd (InsertAfter b E w t pos v))
   \<and> (valid_pos w t pos \<and> has_next w pos \<longrightarrow> well_ended snd (EraseAfter b w t pos))
   \<and> (size_count l \<noteq> 0 \<longrightarrow> well_ended snd (PopFront b w t))
   \<and> well_ended id (Clear w t)
   \<and> (get_list w u \<noteq> None \<longrightarrow> well_ended id (swap_lists w t u))
   \<and> (\<exists>r. SingleLinkedList_copy b E d w t = Some r \<and> well_ended snd r)
   \<and> (get_list w u \<noteq> None \<longrightarrow> (\<exists>r. assign b E d w u t = Some r \<and> well_ended snd r))"
proof (intro impI, elim conjE)
  assume wf: "wf_world w" and g: "get_list w t = Some l"
  have c1: "\<exists>n cs. GetSize w t = Inr n \<and> chain (heap w) (next_node (head_node l)) cs
         \<and> unat n = length cs"
    using wf_world_chain [OF wf g] g by (simp add: GetSize_def)
  have c2: "unat (size_count l) < 2 ^ 64 - 1 \<longrightarrow> well_ended snd (PushFront E w t v)"
    using wf_PushFront [OF wf g] by blast
  have c3: "unat (size_count l) < 2 ^ 64 - 1 \<and> valid_pos w t pos \<longrightarrow>
        well_ended snd (InsertAfter b E w t pos v)"
    using wf_InsertAfter [OF wf g] by blast
  have c4: "valid_pos w t pos \<and> has_next w pos \<longrightarrow> well_ended snd (EraseAfter b w t pos)"
    using wf_EraseAfter [OF wf g] by blast
  have c5: "size_count l \<noteq> 0 \<longrightarrow> well_ended snd (PopFront b w t)"
    using wf_PopFront [OF wf g] by blast
  have c6: "well_ended id (Clear w t)"
    using wf_Clear [OF wf g] by auto
  have c7: "get_list w u \<noteq> None \<longrightarrow> well_ended id (swap_lists w t u)"
    using wf_swap_lists [OF wf g, of u] by auto
  have c8: "\<exists>r. SingleLinkedList_copy b E d w t = Some r \<and> well_ended snd r"
    using wf g by (rule copy_well_ended)
  have c9: "get_list w u \<noteq> None \<longrightarrow> (\<exists>r. assign b E d w u t = Some r \<and> well_ended snd r)"
    using assign_effect [OF wf _ g, of u] by auto
  from c1 c2 c3 c4 c5 c6 c7 c8 c9 show
    "(\<exists>n cs. GetSize w t = Inr n \<and> chain (heap w) (next_node (head_node l)) cs
         \<and> unat n = length cs)
   \<and> (unat (size_count l) < 2 ^ 64 - 1 \<longrightarrow> well_ended snd (PushFront E w t v))
   \<and> (unat (size_count l) < 2 ^ 64 - 1 \<and> valid_pos w t pos \<longrightarrow>
        well_ended snd (InsertAfter b E w t pos v))
   \<and> (valid_pos w t pos \<and> has_next w pos \<longrightarrow> well_ended snd (EraseAfter b w t pos))
   \<and> (size_count l \<noteq> 0 \<longrightarrow> well_ended snd (PopFront b w t))
   \<and> well_ended id (Clear w t)
   \<and> (get_list w u \<noteq> None \<longrightarrow> well_ended id (swap_lists w t u))
   \<and> (\<exists>r. SingleLinkedList_copy b E d w t = Some r \<and> well_ended snd r)
   \<and> (get_list w u \<noteq> None \<longrightarrow> (\<exists>r. assign b E d w u t = Some r \<and> well_ended snd r))"
    by (intro conjI)
qed

lemma wf_list_1_and_2: "wf_world list_1_and_2"
proof -
  have "created never empty_world [1] (SingleLinkedList_values Debug never (0::int) empty_world [1])"
    by (rule SingleLinkedList_values_effect) simp
  then have "wf_world list_1"
    by (simp add: list_1_built created_def wf_empty_world)
  moreover have "created never list_1 [2] (SingleLinkedList_values Debug never (0::int) list_1 [2])"
    by (rule SingleLinkedList_values_effect) simp
  ultimately show ?thesis
    by (simp add: list_1_and_2_built created_def)
qed

theorem count_invariant_preserved_witness:
  "wf_world list_1_and_2
   \<and> get_list list_1_and_2 0 =
       Some \<lparr>head_node = \<lparr>node_value = 0, next_node = Some (Heap 0)\<rparr>, size_count = 1\<rparr>
   \<and> valid_pos list_1_and_2 0 (before_begin 0) \<and> has_next list_1_and_2 (before_begin 0)
   \<and> get_list list_1_and_2 2 \<noteq> None
   \<and> (\<exists>n cs. GetSize list_1_and_2 0 = Inr n \<and> chain (heap list_1_and_2) (Some (Heap 0)) cs
         \<and> unat n = length cs)
   \<and> well_ended snd (PushFront never list_1_and_2 0 9)
   \<and> well_ended snd (InsertAfter Debug never list_1_and_2 0 (before_begin 0) 9)
   \<and> well_ended snd (EraseAfter Debug list_1_and_2 0 (before_begin 0))
   \<and> well_ended snd (PopFront Debug list_1_and_2 0)
   \<and> well_ended id (Clear list_1_and_2 0)
   \<and> well_ended id (swap_lists list_1_and_2 0 2)
   \<and> (\<exists>r. SingleLinkedList_copy Debug never 0 list_1_and_2 0 = Some r \<and> well_ended snd r)
   \<and> (\<exists>r. assign Debug never 0 list_1_and_2 2 0 = Some r \<and> well_ended snd r)"
proof -
  let ?l = "\<lparr>head_node = \<lparr>node_value = 0 :: int, next_node = Some (Heap 0)\<rparr>, size_count = 1\<rparr>"
  have g: "get_list list_1_and_2 0 = Some ?l"
    by (simp add: get_list_def lookup_def list_1_and_2_def)
  have vp: "valid_pos list_1_and_2 0 (before_begin 0)"
    by (simp add: valid_pos_def before_begin_def)
  have hn: "has_next list_1_and_2 (before_begin 0)"
    by (simp add: has_next_def before_begin_def load_def g)
  have u: "get_list list_1_and_2 2 \<noteq> None"
    by (simp add: get_list_def lookup_def list_1_and_2_def)
  have sz: "unat (size_count ?l) < 2 ^ 64 - 1" "size_count ?l \<noteq> 0" by simp_all
  from count_invariant_preserved [where w = list_1_and_2 and t = 0 and l = ?l and E = never
      and v = 9 and b = Debug and pos = "before_begin 0" and u = 2 and d = 0]
    wf_list_1_and_2 g vp hn u sz
  show ?thesis by simp
qed

end
